theory Spec2Isabelle
  imports Complex_Main "HOL-Library.Word"
begin

section \<open>QuickTick: a clock that runs at a multiple of real time\<close>

text \<open>
  The development embeds \<^verbatim>\<open>clock.go\<close> of the package \<^verbatim>\<open>quicktick\<close>. The
  struct \<^verbatim>\<open>QuickTick\<close> is a record, every method is a function on that record, and the
  goroutine started by each constructor is a small state machine whose steps are the
  synchronisation points of the source (channel receive, mutex lock and unlock, atomic
  store). The program has no data race (the real epoch is only touched under the mutex,
  the published duration only through \<^verbatim>\<open>sync/atomic\<close>), so its executions are the
  interleavings of these steps.
\<close>

subsection \<open>float64 arithmetic\<close>

text \<open>
  A \<^verbatim>\<open>float64\<close> is a finite value (a rational), an infinity, or NaN. The sign of zero
  is not represented: the program never divides by zero and converts every product to
  \<^verbatim>\<open>int64\<close>, where both zeros give 0. Every operation computes the exact result and
  rounds it to the nearest double, ties to even (53 significant bits, exponents
  \<open>-1022 .. 1023\<close>, subnormals below).
\<close>

datatype float64 = Fin rat | PInf | NInf | NaN

function bit_length :: "int \<Rightarrow> int" where
  "bit_length n = (if n \<le> 0 then 0 else bit_length (n div 2) + 1)"
  by pat_completeness auto
termination
  by (relation "measure nat") auto

definition ilog2 :: "rat \<Rightarrow> int" where
  "ilog2 a = (let (p, q) = quotient_of a; k = bit_length p - bit_length q
              in if 2 powi k \<le> a then k else k - 1)"

definition round_half_even :: "rat \<Rightarrow> int" where
  "round_half_even x = (let f = \<lfloor>x\<rfloor>; d = x - of_int f
     in if d < 1 / 2 then f else if 1 / 2 < d then f + 1 else if even f then f else f + 1)"

definition round_f64 :: "rat \<Rightarrow> float64" where
  "round_f64 x = (if x = 0 then Fin 0 else
     let a = \<bar>x\<bar>; e = max (ilog2 a) (- 1022); u = 2 powi (e - 52);
         n = round_half_even (a / u)
     in if 1024 \<le> e \<or> (e = 1023 \<and> 2 ^ 53 \<le> n) then (if 0 < x then PInf else NInf)
        else Fin (sgn x * (of_int n * u)))"

definition fsgn :: "float64 \<Rightarrow> int" where
  "fsgn x = (case x of Fin a \<Rightarrow> (if 0 < a then 1 else if a < 0 then - 1 else 0)
             | PInf \<Rightarrow> 1 | NInf \<Rightarrow> - 1 | NaN \<Rightarrow> 0)"

definition fmul :: "float64 \<Rightarrow> float64 \<Rightarrow> float64" where
  "fmul x y = (case (x, y) of
       (Fin a, Fin b) \<Rightarrow> round_f64 (a * b)
     | _ \<Rightarrow> if x = NaN \<or> y = NaN \<or> fsgn x * fsgn y = 0 then NaN
            else if 0 < fsgn x * fsgn y then PInf else NInf)"

definition fadd :: "float64 \<Rightarrow> float64 \<Rightarrow> float64" where
  "fadd x y = (case (x, y) of
       (Fin a, Fin b) \<Rightarrow> round_f64 (a + b)
     | (Fin a, _) \<Rightarrow> y
     | (_, Fin b) \<Rightarrow> x
     | _ \<Rightarrow> if x = y then x else NaN)"

definition fdiv :: "float64 \<Rightarrow> float64 \<Rightarrow> float64" where
  "fdiv x y = (case (x, y) of
       (Fin a, Fin b) \<Rightarrow>
          if b = 0 then (if a = 0 then NaN else if 0 < a then PInf else NInf)
          else round_f64 (a / b)
     | (Fin a, NaN) \<Rightarrow> NaN
     | (Fin a, _) \<Rightarrow> Fin 0
     | (NaN, _) \<Rightarrow> NaN
     | (_, Fin b) \<Rightarrow> if 0 \<le> fsgn x * fsgn y then (if x = PInf then PInf else NInf)
                    else (if x = PInf then NInf else PInf)
     | _ \<Rightarrow> NaN)"

text \<open>The conversion \<^verbatim>\<open>float64(i)\<close> of an integer rounds to the nearest double.\<close>

definition float64_of_int :: "int \<Rightarrow> float64" where
  "float64_of_int i = round_f64 (of_int i)"

text \<open>
  The conversion \<^verbatim>\<open>int64(x)\<close> discards the fraction. Where the value does not fit
  (too large, an infinity, NaN) the Go specification leaves the result to the
  implementation; the model takes that choice as the parameter \<open>impl\<close>.
  \<open>impl_amd64\<close> is what the amd64 instruction \<^verbatim>\<open>CVTTSD2SQ\<close> returns there.
\<close>

definition trunc :: "rat \<Rightarrow> int" where
  "trunc r = (if 0 \<le> r then \<lfloor>r\<rfloor> else \<lceil>r\<rceil>)"

definition fits_int64 :: "float64 \<Rightarrow> bool" where
  "fits_int64 x = (case x of
       Fin r \<Rightarrow> - (2 ^ 63) \<le> trunc r \<and> trunc r < 2 ^ 63
     | _ \<Rightarrow> False)"

definition toInt64 :: "(float64 \<Rightarrow> 64 word) \<Rightarrow> float64 \<Rightarrow> 64 word" where
  "toInt64 impl x = (case x of
       Fin r \<Rightarrow> if fits_int64 x then word_of_int (trunc r) else impl x
     | _ \<Rightarrow> impl x)"

definition impl_amd64 :: "float64 \<Rightarrow> 64 word" where
  "impl_amd64 x = 0x8000000000000000"

subsection \<open>Package time\<close>

text \<open>
  An instant (\<^verbatim>\<open>time.Time\<close>) is a count of nanoseconds since January 1 of year 1, a
  \<^verbatim>\<open>time.Duration\<close> is an \<^verbatim>\<open>int64\<close> of nanoseconds. \<^verbatim>\<open>time.Since\<close> is the
  difference clamped to the range of a Duration, and \<^verbatim>\<open>Duration.Seconds\<close> is
  \<^verbatim>\<open>float64(d / Second) + float64(d % Second) / 1e9\<close> with Go's truncating division.

  A \<^verbatim>\<open>time.Time\<close> keeps whole seconds in an \<^verbatim>\<open>int64\<close> and the nanoseconds below one
  second apart. \<^verbatim>\<open>Time.Add\<close> splits the Duration the same way, carries between the
  two parts and adds the seconds with \<^verbatim>\<open>addSec\<close>, which saturates at
  \<open>2^63 - 1\<close> and \<open>-(2^63 - 1)\<close> when the \<^verbatim>\<open>int64\<close> sum overflows. \<open>addSec_int64\<close> is
  that function as the source writes it, on wrapping 64-bit words; \<open>addSec\<close> is the same
  function on integers, with the overflow test written out. (An instant that carries a
  monotonic reading keeps its seconds in a 33-bit field, from which \<^verbatim>\<open>addSec\<close> moves
  them to the \<^verbatim>\<open>int64\<close> when the sum leaves the field; such sums never overflow, so the
  same function gives its instant.)
\<close>

type_synonym Time = int
type_synonym Duration = "64 word"

definition Millisecond :: Duration where
  "Millisecond = 1000000"

definition Second :: Duration where
  "Second = 1000000000"

definition minDuration :: int where
  "minDuration = - (2 ^ 63)"

definition maxDuration :: int where
  "maxDuration = 2 ^ 63 - 1"

definition Since :: "Time \<Rightarrow> Time \<Rightarrow> Duration" where
  "Since now t = (let d = now - t in
     if maxDuration < d then word_of_int maxDuration
     else if d < minDuration then word_of_int minDuration
     else word_of_int d)"

definition quot :: "int \<Rightarrow> int \<Rightarrow> int" where
  "quot a b = sgn a * sgn b * (\<bar>a\<bar> div \<bar>b\<bar>)"

definition rem :: "int \<Rightarrow> int \<Rightarrow> int" where
  "rem a b = a - b * quot a b"

definition minInt64 :: int where
  "minInt64 = - (2 ^ 63)"

definition maxInt64 :: int where
  "maxInt64 = 2 ^ 63 - 1"

definition addSec_int64 :: "64 word \<Rightarrow> 64 word \<Rightarrow> 64 word" where
  "addSec_int64 ext d = (let sum = ext + d in
     if (ext <s sum) = (0 <s d) then sum
     else if 0 <s d then 0x7FFFFFFFFFFFFFFF
     else - 0x7FFFFFFFFFFFFFFF)"

definition addSec :: "int \<Rightarrow> int \<Rightarrow> int" where
  "addSec ext d = (let sum = ext + d in
     if 0 < d \<and> maxInt64 < sum then maxInt64
     else if d < 0 \<and> sum < minInt64 then - maxInt64
     else sum)"

definition Add :: "Time \<Rightarrow> Duration \<Rightarrow> Time" where
  "Add t d =
     (let dsec = quot (sint d) 1000000000;
          nsec = t mod 1000000000 + rem (sint d) 1000000000;
          (dsec, nsec) = (if 1000000000 \<le> nsec then (dsec + 1, nsec - 1000000000)
                          else if nsec < 0 then (dsec - 1, nsec + 1000000000)
                          else (dsec, nsec))
      in addSec (t div 1000000000) dsec * 1000000000 + nsec)"

definition Seconds :: "Duration \<Rightarrow> float64" where
  "Seconds d = (let sec = quot (sint d) (sint Second); nsec = rem (sint d) (sint Second)
     in fadd (float64_of_int sec) (fdiv (float64_of_int nsec) (Fin 1000000000)))"

subsection \<open>The struct and its methods\<close>

text \<open>
  \<open>done_chan\<close> is the field \<^verbatim>\<open>done\<close> (a channel that is only ever closed), \<open>mu\<close> says
  whether the mutex is held, \<open>once\<close> whether the \<^verbatim>\<open>sync.Once\<close> has fired.
\<close>

datatype chan = Open | Closed

datatype error = Blocked | Panic

record QuickTick =
  multiplier :: float64
  tickerInterval :: Duration
  startTime :: Time
  startRealTime :: Time
  currentDuration :: "64 word"
  done_chan :: chan
  mu :: bool
  once :: bool

text \<open>
  \<^verbatim>\<open>mu.Lock()\<close> waits while the mutex is held: called alone on a held mutex it never
  returns, which is the value \<open>Inl Blocked\<close>. \<^verbatim>\<open>close\<close> of a closed channel panics.
\<close>

definition Lock :: "QuickTick \<Rightarrow> error + QuickTick" where
  "Lock ac = (if mu ac then Inl Blocked else Inr (ac\<lparr>mu := True\<rparr>))"

definition Unlock :: "QuickTick \<Rightarrow> QuickTick" where
  "Unlock ac = ac\<lparr>mu := False\<rparr>"

definition close :: "chan \<Rightarrow> error + chan" where
  "close c = (case c of Open \<Rightarrow> Inr Closed | Closed \<Rightarrow> Inl Panic)"

text \<open>Lines 153 and 154 of \<^verbatim>\<open>updateClock\<close>: the value it publishes for an elapsed time.\<close>

definition accelerated :: "(float64 \<Rightarrow> 64 word) \<Rightarrow> float64 \<Rightarrow> Duration \<Rightarrow> 64 word" where
  "accelerated impl m elapsedRealTime =
     (let acceleratedElapsedTime = fmul (Seconds elapsedRealTime) m
      in toInt64 impl (fmul acceleratedElapsedTime (float64_of_int (sint Second))))"

text \<open>\<open>now\<close> is the reading of the real clock taken by \<^verbatim>\<open>time.Since\<close>.\<close>

definition updateClock :: "(float64 \<Rightarrow> 64 word) \<Rightarrow> Time \<Rightarrow> QuickTick \<Rightarrow> error + QuickTick" where
  "updateClock impl now ac =
     (case Lock ac of
        Inl e \<Rightarrow> Inl e
      | Inr ac1 \<Rightarrow>
          let elapsedRealTime = Since now (startRealTime ac1);
              ac2 = Unlock ac1
          in Inr (ac2\<lparr>currentDuration := accelerated impl (multiplier ac2) elapsedRealTime\<rparr>))"

definition Now :: "QuickTick \<Rightarrow> Time" where
  "Now ac = (let accumulatedDuration = currentDuration ac
             in Add (startTime ac) accumulatedDuration)"

definition Stop :: "QuickTick \<Rightarrow> error + QuickTick" where
  "Stop ac =
     (if once ac then Inr ac
      else (case close (done_chan ac) of
              Inl e \<Rightarrow> Inl e
            | Inr c \<Rightarrow> Inr (ac\<lparr>done_chan := c, once := True\<rparr>)))"

text \<open>\<open>now\<close> is the reading of \<^verbatim>\<open>time.Now()\<close> inside \<^verbatim>\<open>Reset\<close>.\<close>

definition Reset :: "Time \<Rightarrow> QuickTick \<Rightarrow> error + QuickTick" where
  "Reset now ac =
     (case Lock ac of
        Inl e \<Rightarrow> Inl e
      | Inr ac1 \<Rightarrow> Inr (Unlock (ac1\<lparr>startRealTime := now, currentDuration := 0\<rparr>)))"

text \<open>\<open>n\<close> calls of \<^verbatim>\<open>Stop\<close>, one after the other.\<close>

fun Stops :: "nat \<Rightarrow> QuickTick \<Rightarrow> error + QuickTick" where
  "Stops 0 ac = Inr ac"
| "Stops (Suc n) ac = (case Stop ac of Inl e \<Rightarrow> Inl e | Inr ac' \<Rightarrow> Stops n ac')"

text \<open>
  How many of these \<open>n\<close> calls execute \<^verbatim>\<open>close(ac.done)\<close>: a call does so exactly when
  the \<^verbatim>\<open>sync.Once\<close> has not fired before it.
\<close>

fun closes :: "nat \<Rightarrow> QuickTick \<Rightarrow> nat" where
  "closes 0 ac = 0"
| "closes (Suc n) ac =
     (if once ac then 0 else 1) + (case Stop ac of Inl e \<Rightarrow> 0 | Inr ac' \<Rightarrow> closes n ac')"

subsection \<open>The background goroutine\<close>

text \<open>
  The goroutine runs \<^verbatim>\<open>run\<close> or \<^verbatim>\<open>runWithContext\<close>. Its program counter names the
  instruction it executes next: waiting in the \<^verbatim>\<open>select\<close>, about to call \<^verbatim>\<open>Stop\<close>
  after the context's case, one of the four instructions of \<^verbatim>\<open>updateClock\<close> (with the
  sampled elapsed time once it is taken), or returned. \<open>ticker\<close> is the period of the
  ticker the function creates in its first line.
\<close>

datatype body = Run | RunWithContext

datatype loop_pc =
  AtSelect | CtxCase | UpdLock | UpdSince | UpdUnlock Duration | UpdStore Duration | Returned

record goroutine =
  body :: body
  ticker :: Duration
  pc :: loop_pc

definition run :: "QuickTick \<Rightarrow> goroutine" where
  "run ac = \<lparr>body = Run, ticker = Millisecond, pc = AtSelect\<rparr>"

definition runWithContext :: "QuickTick \<Rightarrow> goroutine" where
  "runWithContext ac = \<lparr>body = RunWithContext, ticker = Millisecond, pc = AtSelect\<rparr>"

text \<open>
  A call of \<^verbatim>\<open>Reset\<close> in flight, by the instruction it executes next: lock, write the
  real epoch, store zero, the deferred unlock, returned.
\<close>

datatype reset_pc = RstLock | RstEpoch | RstStore | RstUnlock | RstReturned

text \<open>
  The whole system: the clock, its goroutine, the \<^verbatim>\<open>Done\<close> channel of the context (if
  the clock was built with one) and the calls of \<^verbatim>\<open>Reset\<close> made so far.
\<close>

record system =
  clock :: QuickTick
  loop :: goroutine
  ctx :: "chan option"
  resets :: "reset_pc list"

text \<open>The constructors; \<open>now\<close> is the reading of \<^verbatim>\<open>time.Now()\<close> each of them takes.\<close>

definition New :: "Time \<Rightarrow> float64 \<Rightarrow> system" where
  "New now m =
     (let startTime' = now;
          ac = \<lparr>multiplier = m, tickerInterval = Millisecond, startTime = startTime',
                startRealTime = startTime', currentDuration = 0, done_chan = Open,
                mu = False, once = False\<rparr>
      in \<lparr>clock = ac, loop = run ac, ctx = None, resets = []\<rparr>)"

definition NewCustom :: "Time \<Rightarrow> Time \<Rightarrow> float64 \<Rightarrow> Duration \<Rightarrow> system" where
  "NewCustom now startTime' m updateInterval =
     (let ac = \<lparr>multiplier = m, tickerInterval = updateInterval, startTime = startTime',
                startRealTime = now, currentDuration = 0, done_chan = Open,
                mu = False, once = False\<rparr>
      in \<lparr>clock = ac, loop = run ac, ctx = None, resets = []\<rparr>)"

definition NewCtx :: "chan \<Rightarrow> Time \<Rightarrow> float64 \<Rightarrow> system" where
  "NewCtx c now m =
     (let startTime' = now;
          ac = \<lparr>multiplier = m, tickerInterval = Millisecond, startTime = startTime',
                startRealTime = startTime', currentDuration = 0, done_chan = Open,
                mu = False, once = False\<rparr>
      in \<lparr>clock = ac, loop = runWithContext ac, ctx = Some c, resets = []\<rparr>)"

definition NewCustomCtx :: "chan \<Rightarrow> Time \<Rightarrow> Time \<Rightarrow> float64 \<Rightarrow> Duration \<Rightarrow> system" where
  "NewCustomCtx c now startTime' m updateInterval =
     (let ac = \<lparr>multiplier = m, tickerInterval = updateInterval, startTime = startTime',
                startRealTime = now, currentDuration = 0, done_chan = Open,
                mu = False, once = False\<rparr>
      in \<lparr>clock = ac, loop = runWithContext ac, ctx = Some c, resets = []\<rparr>)"

subsection \<open>Interleaved executions\<close>

text \<open>
  One event is one step of one thread. \<open>Ticker\<close>, \<open>DoneCase\<close> and \<open>CtxDoneCase\<close> are the
  three cases of the \<^verbatim>\<open>select\<close> (the last only in \<^verbatim>\<open>runWithContext\<close>); \<open>LoopStep\<close> is
  the goroutine's next instruction outside the \<^verbatim>\<open>select\<close>; \<open>Cancel\<close> cancels the
  context; \<open>CallStop\<close> is a caller's \<^verbatim>\<open>Stop()\<close> (one step: \<^verbatim>\<open>sync.Once\<close> serialises
  the calls); \<open>CallReset\<close> starts a call of \<^verbatim>\<open>Reset()\<close> and \<open>ResetStep i\<close> is the next
  instruction of the \<open>i\<close>-th such call. An event carries the reading of the real clock
  its instruction may take. An event that its thread cannot execute in the state
  (wrong program counter, channel not ready, mutex held) is \<open>Inl Blocked\<close>.
\<close>

datatype event =
  Ticker | DoneCase | CtxDoneCase | LoopStep Time | Cancel | CallStop | CallReset
  | ResetStep nat Time

definition set_pc :: "loop_pc \<Rightarrow> system \<Rightarrow> system" where
  "set_pc p s = s\<lparr>loop := (loop s)\<lparr>pc := p\<rparr>\<rparr>"

definition loop_step :: "(float64 \<Rightarrow> 64 word) \<Rightarrow> Time \<Rightarrow> system \<Rightarrow> error + system" where
  "loop_step impl now s =
     (case pc (loop s) of
        CtxCase \<Rightarrow>
          (case Stop (clock s) of
             Inl e \<Rightarrow> Inl e
           | Inr ac \<Rightarrow> Inr (set_pc Returned (s\<lparr>clock := ac\<rparr>)))
      | UpdLock \<Rightarrow>
          (case Lock (clock s) of
             Inl e \<Rightarrow> Inl e
           | Inr ac \<Rightarrow> Inr (set_pc UpdSince (s\<lparr>clock := ac\<rparr>)))
      | UpdSince \<Rightarrow> Inr (set_pc (UpdUnlock (Since now (startRealTime (clock s)))) s)
      | UpdUnlock elapsedRealTime \<Rightarrow>
          Inr (set_pc (UpdStore elapsedRealTime) (s\<lparr>clock := Unlock (clock s)\<rparr>))
      | UpdStore elapsedRealTime \<Rightarrow>
          Inr (set_pc AtSelect
            (s\<lparr>clock := (clock s)\<lparr>currentDuration :=
                 accelerated impl (multiplier (clock s)) elapsedRealTime\<rparr>\<rparr>))
      | _ \<Rightarrow> Inl Blocked)"

definition reset_step :: "nat \<Rightarrow> Time \<Rightarrow> system \<Rightarrow> error + system" where
  "reset_step i now s =
     (if length (resets s) \<le> i then Inl Blocked
      else (case resets s ! i of
          RstLock \<Rightarrow>
            (case Lock (clock s) of
               Inl e \<Rightarrow> Inl e
             | Inr ac \<Rightarrow> Inr (s\<lparr>clock := ac, resets := (resets s)[i := RstEpoch]\<rparr>))
        | RstEpoch \<Rightarrow>
            Inr (s\<lparr>clock := (clock s)\<lparr>startRealTime := now\<rparr>,
                   resets := (resets s)[i := RstStore]\<rparr>)
        | RstStore \<Rightarrow>
            Inr (s\<lparr>clock := (clock s)\<lparr>currentDuration := 0\<rparr>,
                   resets := (resets s)[i := RstUnlock]\<rparr>)
        | RstUnlock \<Rightarrow>
            Inr (s\<lparr>clock := Unlock (clock s), resets := (resets s)[i := RstReturned]\<rparr>)
        | RstReturned \<Rightarrow> Inl Blocked))"

definition step :: "(float64 \<Rightarrow> 64 word) \<Rightarrow> event \<Rightarrow> system \<Rightarrow> error + system" where
  "step impl ev s =
     (case ev of
        Ticker \<Rightarrow> if pc (loop s) = AtSelect then Inr (set_pc UpdLock s) else Inl Blocked
      | DoneCase \<Rightarrow>
          if pc (loop s) = AtSelect \<and> done_chan (clock s) = Closed
          then Inr (set_pc Returned s) else Inl Blocked
      | CtxDoneCase \<Rightarrow>
          if pc (loop s) = AtSelect \<and> body (loop s) = RunWithContext \<and> ctx s = Some Closed
          then Inr (set_pc CtxCase s) else Inl Blocked
      | LoopStep now \<Rightarrow> loop_step impl now s
      | Cancel \<Rightarrow> if ctx s = None then Inl Blocked else Inr (s\<lparr>ctx := Some Closed\<rparr>)
      | CallStop \<Rightarrow>
          (case Stop (clock s) of Inl e \<Rightarrow> Inl e | Inr ac \<Rightarrow> Inr (s\<lparr>clock := ac\<rparr>))
      | CallReset \<Rightarrow> Inr (s\<lparr>resets := resets s @ [RstLock]\<rparr>)
      | ResetStep i now \<Rightarrow> reset_step i now s)"

fun exec :: "(float64 \<Rightarrow> 64 word) \<Rightarrow> event list \<Rightarrow> system \<Rightarrow> error + system" where
  "exec impl [] s = Inr s"
| "exec impl (ev # evs) s =
     (case step impl ev s of Inl e \<Rightarrow> Inl e | Inr s' \<Rightarrow> exec impl evs s')"

text \<open>
  The \<^verbatim>\<open>sync.Once\<close> has fired exactly when the channel is closed: true of every
  constructed clock and kept by every step, since \<^verbatim>\<open>Stop\<close> alone touches either.
\<close>

definition once_guards_done :: "QuickTick \<Rightarrow> bool" where
  "once_guards_done ac = (once ac = (done_chan ac = Closed))"

definition is_ResetStep :: "event \<Rightarrow> bool" where
  "is_ResetStep ev = (case ev of ResetStep i now \<Rightarrow> True | _ \<Rightarrow> False)"

text \<open>
  The steps that execute \<^verbatim>\<open>close(ac.done)\<close>: a call of \<^verbatim>\<open>Stop\<close>, by a caller or by the
  goroutine after the context's case, made while the \<^verbatim>\<open>sync.Once\<close> has not fired.
  \<open>exec_closes\<close> counts them along a schedule.
\<close>

definition runs_close :: "event \<Rightarrow> system \<Rightarrow> bool" where
  "runs_close ev s = (case ev of
       CallStop \<Rightarrow> \<not> once (clock s)
     | LoopStep now \<Rightarrow> pc (loop s) = CtxCase \<and> \<not> once (clock s)
     | _ \<Rightarrow> False)"

fun exec_closes :: "(float64 \<Rightarrow> 64 word) \<Rightarrow> event list \<Rightarrow> system \<Rightarrow> nat" where
  "exec_closes impl [] s = 0"
| "exec_closes impl (ev # evs) s =
     (if runs_close ev s then 1 else 0)
       + (case step impl ev s of Inl e \<Rightarrow> 0 | Inr s' \<Rightarrow> exec_closes impl evs s')"

text \<open>
  Who holds the mutex: the goroutine between its \<^verbatim>\<open>Lock\<close> and its \<^verbatim>\<open>Unlock\<close>, a call
  of \<^verbatim>\<open>Reset\<close> between its \<^verbatim>\<open>Lock\<close> and its deferred \<^verbatim>\<open>Unlock\<close>. The mutex is used
  well when it is held exactly by the one thread that is in such a section.
\<close>

definition loop_holds :: "loop_pc \<Rightarrow> bool" where
  "loop_holds p = (case p of UpdSince \<Rightarrow> True | UpdUnlock e \<Rightarrow> True | _ \<Rightarrow> False)"

definition reset_holds :: "reset_pc \<Rightarrow> bool" where
  "reset_holds r = (r = RstEpoch \<or> r = RstStore \<or> r = RstUnlock)"

definition holders :: "system \<Rightarrow> nat" where
  "holders s = (if loop_holds (pc (loop s)) then 1 else 0)
                 + length (filter reset_holds (resets s))"

definition mutex_ok :: "system \<Rightarrow> bool" where
  "mutex_ok s = (holders s = (if mu (clock s) then 1 else 0))"

section \<open>Rounding to float64\<close>

text \<open>
  The bit length of a positive integer brackets it between two powers of two, so
  \<open>ilog2 a\<close> is the exponent of the binade of \<open>a\<close>: \<open>2 powi ilog2 a \<le> a < 2 powi (ilog2 a + 1)\<close>.
  Rounding keeps the sign, stays finite well below the largest double, and leaves
  every representable value unchanged.
\<close>

declare bit_length.simps [simp del]

lemma bit_length_bounds:
  "0 < n \<Longrightarrow> 0 < bit_length n \<and> 2 ^ nat (bit_length n - 1) \<le> n \<and> n < 2 ^ nat (bit_length n)"
proof (induction n rule: bit_length.induct)
  case (1 n)
  show ?case
  proof (cases "n div 2 = 0")
    case True
    with "1.prems" have n1: "n = 1" by presburger
    have "bit_length 1 = 1"
      by (simp add: bit_length.simps[of 1] bit_length.simps[of 0])
    then show ?thesis using n1 by simp
  next
    case False
    with "1.prems" have pos: "0 < n div 2" by presburger
    from "1.IH"[OF _ pos] "1.prems"
    have ih: "0 < bit_length (n div 2)"
      "2 ^ nat (bit_length (n div 2) - 1) \<le> n div 2"
      "n div 2 < 2 ^ nat (bit_length (n div 2))"
      by auto
    have eq: "bit_length n = bit_length (n div 2) + 1"
      using "1.prems" by (subst bit_length.simps) simp
    define b where "b = bit_length (n div 2)"
    have nb: "nat (b + 1 - 1) = nat b" "nat (b + 1) = Suc (nat b)" "nat b = Suc (nat (b - 1))"
      using ih(1) by (auto simp: b_def)
    have lo: "(2::int) ^ nat b \<le> n"
    proof -
      have "(2::int) ^ nat b = 2 * 2 ^ nat (b - 1)" using nb(3) by simp
      also have "\<dots> \<le> 2 * (n div 2)" using ih(2) by (simp add: b_def)
      also have "\<dots> \<le> n" by presburger
      finally show ?thesis .
    qed
    have hi: "n < 2 ^ Suc (nat b)"
    proof -
      have "n div 2 + 1 \<le> 2 ^ nat b" using ih(3) by (simp add: b_def)
      then have "2 * (n div 2) + 2 \<le> 2 * 2 ^ nat b" by simp
      moreover have "n \<le> 2 * (n div 2) + 1" by presburger
      ultimately show ?thesis by simp
    qed
    show ?thesis using ih(1) lo hi nb unfolding eq b_def[symmetric] by simp
  qed
qed

lemma ilog2_le:
  assumes "0 < a"
  shows "2 powi (ilog2 a) \<le> a"
proof -
  obtain p q where pq: "quotient_of a = (p, q)" by (cases "quotient_of a")
  then have q: "0 < q" and a: "a = of_int p / of_int q"
    using quotient_of_denom_pos quotient_of_div by auto
  from assms a q have p: "0 < p"
    by (simp add: zero_less_divide_iff)
  define k where "k = bit_length p - bit_length q"
  have il: "ilog2 a = (if 2 powi k \<le> a then k else k - 1)"
    by (simp add: ilog2_def pq k_def Let_def)
  show ?thesis
  proof (cases "2 powi k \<le> a")
    case True
    then show ?thesis by (simp add: il)
  next
    case False
    have bp: "0 < bit_length p" "2 ^ nat (bit_length p - 1) \<le> p"
      using bit_length_bounds[OF p] by auto
    have bq: "0 < bit_length q" "q < 2 ^ nat (bit_length q)"
      using bit_length_bounds[OF q] by auto
    have lo: "(2::rat) powi (bit_length p - 1) \<le> of_int p"
    proof -
      have "(2::rat) powi (bit_length p - 1) = 2 ^ nat (bit_length p - 1)"
        using bp(1) by (simp add: power_int_def)
      also have "\<dots> = of_int (2 ^ nat (bit_length p - 1))" by simp
      also have "\<dots> \<le> of_int p" using bp(2) by (simp only: of_int_le_iff)
      finally show ?thesis .
    qed
    have hi: "of_int q \<le> (2::rat) powi (bit_length q)"
    proof -
      have "(of_int q :: rat) \<le> of_int (2 ^ nat (bit_length q))"
        using bq(2) by (simp only: of_int_le_iff)
      also have "\<dots> = 2 powi (bit_length q)"
        using bq(1) by (simp add: power_int_def)
      finally show ?thesis .
    qed
    have "(2::rat) powi (k - 1) = 2 powi (bit_length p - 1) / 2 powi (bit_length q)"
      by (simp add: k_def power_int_diff)
    also have "\<dots> \<le> of_int p / 2 powi (bit_length q)"
      using lo by (simp add: divide_right_mono)
    also have "\<dots> \<le> of_int p / of_int q"
      using hi p q by (simp add: divide_left_mono)
    finally have "(2::rat) powi (k - 1) \<le> a" by (simp add: a)
    then show ?thesis using False by (simp add: il)
  qed
qed

lemma ilog2_less:
  assumes "0 < a"
  shows "a < 2 powi (ilog2 a + 1)"
proof -
  obtain p q where pq: "quotient_of a = (p, q)" by (cases "quotient_of a")
  then have q: "0 < q" and a: "a = of_int p / of_int q"
    using quotient_of_denom_pos quotient_of_div by auto
  from assms a q have p: "0 < p"
    by (simp add: zero_less_divide_iff)
  define k where "k = bit_length p - bit_length q"
  have il: "ilog2 a = (if 2 powi k \<le> a then k else k - 1)"
    by (simp add: ilog2_def pq k_def Let_def)
  show ?thesis
  proof (cases "2 powi k \<le> a")
    case False
    then show ?thesis by (simp add: il)
  next
    case True
    have bp: "0 < bit_length p" "p < 2 ^ nat (bit_length p)"
      using bit_length_bounds[OF p] by auto
    have bq: "0 < bit_length q" "2 ^ nat (bit_length q - 1) \<le> q"
      using bit_length_bounds[OF q] by auto
    have hi: "of_int p < (2::rat) powi (bit_length p)"
    proof -
      have "(of_int p :: rat) < of_int (2 ^ nat (bit_length p))"
        using bp(2) by (simp only: of_int_less_iff)
      also have "\<dots> = 2 powi (bit_length p)"
        using bp(1) by (simp add: power_int_def)
      finally show ?thesis .
    qed
    have lo: "(2::rat) powi (bit_length q - 1) \<le> of_int q"
    proof -
      have "(2::rat) powi (bit_length q - 1) = of_int (2 ^ nat (bit_length q - 1))"
        using bq(1) by (simp add: power_int_def)
      also have "\<dots> \<le> of_int q" using bq(2) by (simp only: of_int_le_iff)
      finally show ?thesis .
    qed
    have qpos: "(0::rat) < of_int q" using q by simp
    have "of_int p / of_int q < (2::rat) powi (bit_length p) / of_int q"
      using hi qpos by (simp add: divide_strict_right_mono)
    also have "\<dots> \<le> 2 powi (bit_length p) / 2 powi (bit_length q - 1)"
      using lo qpos by (intro divide_left_mono) (simp_all add: zero_less_power_int zero_less_mult_iff)
    also have "\<dots> = 2 powi (k + 1)"
      by (simp add: k_def power_int_diff[symmetric] algebra_simps)
    finally have "a < 2 powi (k + 1)" by (simp add: a)
    then show ?thesis using True by (simp add: il)
  qed
qed

lemma round_half_even_nonneg: "0 \<le> x \<Longrightarrow> 0 \<le> round_half_even x"
  by (auto simp: round_half_even_def Let_def)

lemma round_half_even_le: "of_int (round_half_even x) \<le> x + 1"
proof -
  have f: "of_int \<lfloor>x\<rfloor> \<le> x" by (rule of_int_floor_le)
  have "of_int (round_half_even x) \<le> of_int \<lfloor>x\<rfloor> + (1::rat)"
    by (simp add: round_half_even_def Let_def)
  with f show ?thesis by linarith
qed

lemma round_half_even_of_int: "round_half_even (of_int n) = n"
  by (simp add: round_half_even_def Let_def)

lemma two_powi_pos: "0 < (2::rat) powi k"
  by (simp add: zero_less_power_int)

lemma two_powi_less_imp: "(2::rat) powi i \<le> a \<Longrightarrow> a < 2 powi j \<Longrightarrow> i < j"
proof (rule ccontr)
  assume a: "(2::rat) powi i \<le> a" "a < 2 powi j" and "\<not> i < j"
  then have "j \<le> i" by simp
  then have "(2::rat) powi j \<le> 2 powi i" by (simp add: power_int_increasing)
  with a show False by simp
qed

lemma round_f64_nonzero:
  assumes "x \<noteq> 0"
  shows "round_f64 x =
    (if 1024 \<le> max (ilog2 \<bar>x\<bar>) (- 1022) \<or>
        (max (ilog2 \<bar>x\<bar>) (- 1022) = 1023 \<and>
         2 ^ 53 \<le> round_half_even (\<bar>x\<bar> / 2 powi (max (ilog2 \<bar>x\<bar>) (- 1022) - 52)))
     then (if 0 < x then PInf else NInf)
     else Fin (sgn x * (of_int (round_half_even (\<bar>x\<bar> / 2 powi (max (ilog2 \<bar>x\<bar>) (- 1022) - 52)))
                        * 2 powi (max (ilog2 \<bar>x\<bar>) (- 1022) - 52))))"
  using assms by (simp add: round_f64_def Let_def)

lemma round_f64_nonpos:
  assumes "x \<le> 0"
  shows "round_f64 x = NInf \<or> (\<exists>r. round_f64 x = Fin r \<and> r \<le> 0)"
proof (cases "x = 0")
  case True
  then show ?thesis by (simp add: round_f64_def)
next
  case False
  with assms have neg: "x < 0" by simp
  define e where "e = max (ilog2 \<bar>x\<bar>) (- 1022)"
  define n where "n = round_half_even (\<bar>x\<bar> / 2 powi (e - 52))"
  have "0 \<le> \<bar>x\<bar> / 2 powi (e - 52)" using two_powi_pos[of "e - 52"] by simp
  then have n0: "0 \<le> n" unfolding n_def by (rule round_half_even_nonneg)
  have "0 \<le> of_int n * (2::rat) powi (e - 52)"
    using n0 two_powi_pos[of "e - 52"] by simp
  then have le: "sgn x * (of_int n * (2::rat) powi (e - 52)) \<le> 0"
    using neg by (simp add: mult_le_0_iff)
  have rf: "round_f64 x =
    (if 1024 \<le> e \<or> (e = 1023 \<and> 2 ^ 53 \<le> n) then (if 0 < x then PInf else NInf)
     else Fin (sgn x * (of_int n * 2 powi (e - 52))))"
    unfolding n_def e_def by (rule round_f64_nonzero[OF False])
  show ?thesis
    unfolding rf using neg le by auto
qed

lemma round_f64_finite:
  assumes "\<bar>x\<bar> < 2 ^ 1023"
  shows "\<exists>r. round_f64 x = Fin r \<and> \<bar>r\<bar> \<le> 2 * \<bar>x\<bar> + 1 \<and> (0 \<le> x \<longrightarrow> 0 \<le> r) \<and> (x \<le> 0 \<longrightarrow> r \<le> 0)"
proof (cases "x = 0")
  case True
  then show ?thesis by (simp add: round_f64_def)
next
  case False
  define a where "a = \<bar>x\<bar>"
  have a0: "0 < a" using False by (simp add: a_def)
  define e where "e = max (ilog2 a) (- 1022)"
  define u where "u = (2::rat) powi (e - 52)"
  define n where "n = round_half_even (a / u)"
  have u0: "0 < u" by (simp add: u_def two_powi_pos)
  have "a < 2 powi 1023" using assms by (simp add: a_def)
  with ilog2_le[OF a0] have "ilog2 a < 1023" by (rule two_powi_less_imp)
  then have e1023: "e < 1023" by (simp add: e_def)
  have n0: "0 \<le> n" unfolding n_def using a0 u0 by (intro round_half_even_nonneg) simp
  have "of_int n \<le> a / u + 1" unfolding n_def by (rule round_half_even_le)
  then have "of_int n * u \<le> (a / u + 1) * u" using u0 by (simp only: mult_le_cancel_right_pos)
  also have "\<dots> = a + u" using u0 by (simp add: field_simps)
  finally have nu: "of_int n * u \<le> a + u" .
  have "u \<le> a + 1"
  proof (cases "ilog2 a \<le> - 1022")
    case True
    then have "e = - 1022" by (simp add: e_def)
    then have "u = 2 powi (- 1074)" by (simp add: u_def)
    also have "\<dots> \<le> 2 powi 0" by (rule power_int_increasing) simp_all
    finally show ?thesis using a0 by simp
  next
    case False
    then have "e = ilog2 a" by (simp add: e_def)
    then have "u \<le> 2 powi (ilog2 a)" unfolding u_def by (intro power_int_increasing) simp_all
    with ilog2_le[OF a0] show ?thesis by simp
  qed
  with nu have bound: "of_int n * u \<le> 2 * a + 1" by simp
  have nu0: "0 \<le> of_int n * u" using n0 u0 by simp
  have rf: "round_f64 x =
    (if 1024 \<le> e \<or> (e = 1023 \<and> 2 ^ 53 \<le> n) then (if 0 < x then PInf else NInf)
     else Fin (sgn x * (of_int n * u)))"
    unfolding n_def u_def e_def a_def by (rule round_f64_nonzero[OF False])
  have r: "round_f64 x = Fin (sgn x * (of_int n * u))"
    unfolding rf using e1023 by simp
  have abs: "\<bar>sgn x * (of_int n * u)\<bar> = of_int n * u"
    using False n0 u0 by (simp add: abs_mult abs_sgn_eq)
  show ?thesis
    unfolding r using bound nu0 abs
    by (auto simp: a_def sgn_if mult_le_0_iff zero_le_mult_iff)
qed

lemma round_f64_repr:
  assumes "\<bar>n\<bar> < 2 ^ 53" and "- 1074 \<le> j" and "j \<le> 971"
  shows "round_f64 (of_int n * 2 powi j) = Fin (of_int n * 2 powi j)"
proof (cases "n = 0")
  case True
  then show ?thesis by (simp add: round_f64_def)
next
  case False
  define x where "x = (of_int n :: rat) * 2 powi j"
  define a where "a = \<bar>x\<bar>"
  have aeq: "a = of_int \<bar>n\<bar> * 2 powi j"
    by (simp add: a_def x_def abs_mult)
  have x0: "x \<noteq> 0" using False by (simp add: x_def)
  have a0: "0 < a" using x0 by (simp add: a_def)
  define e where "e = max (ilog2 a) (- 1022)"
  define u where "u = (2::rat) powi (e - 52)"
  define m where "m = round_half_even (a / u)"
  have "(of_int \<bar>n\<bar> :: rat) < of_int (2 ^ 53)" using assms(1) by (simp only: of_int_less_iff)
  then have "a < 2 ^ 53 * 2 powi j" unfolding aeq using two_powi_pos[of j] by simp
  also have "\<dots> = 2 powi (53 + j)" by (simp add: power_int_add)
  finally have "a < 2 powi (53 + j)" .
  with ilog2_le[OF a0] have "ilog2 a < 53 + j" by (rule two_powi_less_imp)
  then have ej: "e \<le> j + 52" using assms(2) by (simp add: e_def)
  define d where "d = nat (j - (e - 52))"
  have jd: "j = (e - 52) + int d" using ej by (simp add: d_def)
  have "a / u = of_int \<bar>n\<bar> * (2 powi (e - 52 + int d) / 2 powi (e - 52))"
    unfolding aeq u_def using jd by simp
  also have "2 powi (e - 52 + int d) / 2 powi (e - 52) = (2::rat) ^ d"
    by (simp add: power_int_add)
  finally have au: "a / u = of_int (\<bar>n\<bar> * 2 ^ d)" by simp
  have m: "m = \<bar>n\<bar> * 2 ^ d" unfolding m_def au by (rule round_half_even_of_int)
  have mu: "of_int m * u = a"
    using au two_powi_pos[of "e - 52"] unfolding m u_def by (simp add: field_simps)
  have noov: "\<not> (1024 \<le> e \<or> (e = 1023 \<and> 2 ^ 53 \<le> m))"
  proof -
    have "e \<le> 1023" using ej assms(3) by simp
    moreover have "m < 2 ^ 53" if "e = 1023"
    proof -
      from that ej assms(3) have "d = 0" by (simp add: d_def)
      then show ?thesis using assms(1) by (simp add: m)
    qed
    ultimately show ?thesis by auto
  qed
  have rf: "round_f64 x =
    (if 1024 \<le> e \<or> (e = 1023 \<and> 2 ^ 53 \<le> m) then (if 0 < x then PInf else NInf)
     else Fin (sgn x * (of_int m * u)))"
    unfolding m_def u_def e_def a_def by (rule round_f64_nonzero[OF x0])
  have "round_f64 x = Fin (sgn x * (of_int m * u))"
    unfolding rf using noov by simp
  also have "sgn x * (of_int m * u) = x"
    unfolding mu a_def by (simp add: sgn_mult_abs)
  finally show ?thesis by (simp add: x_def)
qed

lemma float64_of_int_exact: "\<bar>i\<bar> < 2 ^ 53 \<Longrightarrow> float64_of_int i = Fin (of_int i)"
  using round_f64_repr[of i 0] by (simp add: float64_of_int_def)

lemma round_f64_exactI:
  "x = of_int n * 2 powi j \<Longrightarrow> \<bar>n\<bar> < 2 ^ 53 \<Longrightarrow> - 1074 \<le> j \<Longrightarrow> j \<le> 971 \<Longrightarrow> round_f64 x = Fin x"
  using round_f64_repr[of n j] by simp

lemma round_f64_zero: "round_f64 0 = Fin 0"
  by (simp add: round_f64_def)

section \<open>Durations and seconds\<close>

text \<open>
  \<^verbatim>\<open>time.Since\<close> of an epoch that is not in the future is not negative, and
  \<^verbatim>\<open>Duration.Seconds\<close> of any Duration is a finite double of the same sign: the whole
  seconds and the nanoseconds below one second are both exact, and the two roundings
  (of the quotient by \<open>1e9\<close> and of the sum) stay far from the overflow threshold.
\<close>

lemma sint_Second: "sint Second = 1000000000"
  by (simp add: Second_def)

lemma float64_Second: "float64_of_int (sint Second) = Fin 1000000000"
  using float64_of_int_exact[of 1000000000] by (simp add: sint_Second)

lemma sint_range: "- (2 ^ 63) \<le> sint (d :: 64 word) \<and> sint d < 2 ^ 63"
  using sint_ge[of d] sint_lt[of d] by simp

lemma sint_word_of_int_64:
  "- (2 ^ 63) \<le> i \<Longrightarrow> i < 2 ^ 63 \<Longrightarrow> sint (word_of_int i :: 64 word) = i"
  by (simp add: sint_sbintrunc' signed_take_bit_int_eq_self)

lemma Since_exact:
  assumes "t \<le> now" "now - t < 2 ^ 63"
  shows "sint (Since now t) = now - t"
proof -
  have "Since now t = word_of_int (now - t)"
    using assms by (simp add: Since_def Let_def maxDuration_def minDuration_def del: of_int_diff)
  moreover have "sint (word_of_int (now - t) :: 64 word) = now - t"
    using assms by (intro sint_word_of_int_64) simp_all
  ultimately show ?thesis by simp
qed

lemma Since_nonneg:
  assumes "t \<le> now"
  shows "0 \<le> sint (Since now t)"
proof (cases "now - t < 2 ^ 63")
  case True
  with assms show ?thesis by (simp add: Since_exact)
next
  case False
  then have "Since now t = word_of_int maxDuration"
    by (simp add: Since_def Let_def maxDuration_def del: of_int_diff)
  then show ?thesis by (simp add: maxDuration_def)
qed

lemma quot_bound:
  assumes "- (2 ^ 63) \<le> a" "a < 2 ^ 63"
  shows "\<bar>quot a 1000000000\<bar> < 2 ^ 53 \<and> (0 \<le> a \<longrightarrow> 0 \<le> quot a 1000000000)"
proof -
  have "\<bar>a\<bar> \<le> 2 ^ 63" using assms by simp
  then have "\<bar>a\<bar> div 1000000000 \<le> 2 ^ 63 div 1000000000" by (rule zdiv_mono1) simp
  then have "\<bar>a\<bar> div 1000000000 < 2 ^ 53" by simp
  moreover have "0 \<le> \<bar>a\<bar> div 1000000000" by simp
  ultimately show ?thesis by (auto simp: quot_def sgn_if)
qed

lemma rem_bound:
  "\<bar>rem a 1000000000\<bar> < 1000000000 \<and> (0 \<le> a \<longrightarrow> 0 \<le> rem a 1000000000)"
proof -
  have pos: "a - 1000000000 * (a div 1000000000) = a mod 1000000000"
    by (rule minus_mult_div_eq_mod)
  have neg: "a + 1000000000 * (- a div 1000000000) = - (- a mod 1000000000)"
    using minus_mult_div_eq_mod[of "- a" 1000000000] by linarith
  have "rem a 1000000000 = sgn a * (\<bar>a\<bar> mod 1000000000)"
    by (cases "0 \<le> a") (simp_all add: rem_def quot_def sgn_if pos neg)
  moreover have "0 \<le> \<bar>a\<bar> mod 1000000000" "\<bar>a\<bar> mod 1000000000 < 1000000000" by simp_all
  ultimately show ?thesis by (auto simp: sgn_if)
qed

lemma Seconds_finite: "\<exists>s. Seconds d = Fin s \<and> (0 \<le> sint d \<longrightarrow> 0 \<le> s)"
proof -
  define sec where "sec = quot (sint d) 1000000000"
  define nsec where "nsec = rem (sint d) 1000000000"
  have sec: "\<bar>sec\<bar> < 2 ^ 53" "0 \<le> sint d \<Longrightarrow> 0 \<le> sec"
    using quot_bound[of "sint d"] sint_range[of d] by (auto simp: sec_def)
  have nsec: "\<bar>nsec\<bar> < 1000000000" "0 \<le> sint d \<Longrightarrow> 0 \<le> nsec"
    using rem_bound[of "sint d"] by (auto simp: nsec_def)
  have fsec: "float64_of_int sec = Fin (of_int sec)"
    using sec(1) by (rule float64_of_int_exact)
  have fnsec: "float64_of_int nsec = Fin (of_int nsec)"
    using nsec(1) by (intro float64_of_int_exact) simp
  define q where "q = (of_int nsec :: rat) / 1000000000"
  have "\<bar>of_int nsec :: rat\<bar> < 1000000000"
    using nsec(1) by (metis of_int_abs of_int_less_iff of_int_numeral)
  then have q1: "\<bar>q\<bar> < 1" by (simp add: q_def)
  then have "\<bar>q\<bar> < 2 ^ 1023" by (rule less_le_trans) simp
  from round_f64_finite[OF this] obtain r where
    r: "round_f64 q = Fin r" "\<bar>r\<bar> \<le> 2 * \<bar>q\<bar> + 1" "0 \<le> q \<Longrightarrow> 0 \<le> r"
    by auto
  have r3: "\<bar>r\<bar> \<le> 3" using r(2) q1 by linarith
  have "\<bar>of_int sec :: rat\<bar> < 2 ^ 53"
    using sec(1) by (metis of_int_abs of_int_less_iff of_int_numeral of_int_power)
  then have "\<bar>of_int sec + r\<bar> < 2 ^ 53 + 4" using r3 by linarith
  then have "\<bar>of_int sec + r\<bar> < 2 ^ 1023" by (rule less_le_trans) simp
  from round_f64_finite[OF this] obtain s where
    s: "round_f64 (of_int sec + r) = Fin s" "0 \<le> of_int sec + r \<Longrightarrow> 0 \<le> s"
    by auto
  have "Seconds d = Fin s"
    by (simp add: Seconds_def Let_def sint_Second sec_def[symmetric] nsec_def[symmetric]
        fsec fnsec fdiv_def fadd_def q_def[symmetric] r(1) s(1))
  moreover have "0 \<le> s" if "0 \<le> sint d"
  proof -
    have "0 \<le> q" using nsec(2)[OF that] by (simp add: q_def)
    then have "0 \<le> r" by (rule r(3))
    moreover have "0 \<le> (of_int sec :: rat)" using sec(2)[OF that] by simp
    ultimately show ?thesis by (intro s(2)) simp
  qed
  ultimately show ?thesis by blast
qed

subsection \<open>Adding a Duration to an instant\<close>

text \<open>
  \<open>addSec\<close> is \<open>addSec_int64\<close> read as integers. Adding the zero Duration changes
  nothing, and \<^verbatim>\<open>Add\<close> is exact addition whenever the whole seconds of the sum fit an
  \<^verbatim>\<open>int64\<close>; at the very end of the range it stays where it is.
\<close>

lemma Add_zero: "Add t 0 = t"
proof -
  have n: "\<not> 1000000000 \<le> t mod 1000000000" "\<not> t mod 1000000000 < 0" by simp_all
  have "Add t 0 = addSec (t div 1000000000) 0 * 1000000000 + t mod 1000000000"
    unfolding Add_def using n by (simp add: quot_def rem_def Let_def)
  then show ?thesis by (simp add: addSec_def)
qed

lemma Add_split:
  "\<exists>dsec nsec. 0 \<le> nsec \<and> nsec < 1000000000 \<and>
     dsec * 1000000000 + nsec = t mod 1000000000 + sint d \<and>
     Add t d = addSec (t div 1000000000) dsec * 1000000000 + nsec"
proof -
  define q where "q = quot (sint d) 1000000000"
  define r where "r = rem (sint d) 1000000000"
  have qr: "q * 1000000000 + r = sint d" by (simp add: r_def q_def rem_def)
  have r: "\<bar>r\<bar> < 1000000000" using rem_bound[of "sint d"] by (simp add: r_def)
  define n where "n = t mod 1000000000"
  have n: "0 \<le> n" "n < 1000000000" by (simp_all add: n_def)
  have A: "Add t d = (let (dsec, nsec) = (if 1000000000 \<le> n + r then (q + 1, n + r - 1000000000)
                          else if n + r < 0 then (q - 1, n + r + 1000000000)
                          else (q, n + r))
      in addSec (t div 1000000000) dsec * 1000000000 + nsec)"
    by (simp add: Add_def Let_def q_def r_def n_def)
  consider "1000000000 \<le> n + r" | "n + r < 0" | "0 \<le> n + r" "n + r < 1000000000" by linarith
  then show ?thesis
  proof cases
    case 1
    have "Add t d = addSec (t div 1000000000) (q + 1) * 1000000000 + (n + r - 1000000000)"
      using 1 by (simp add: A)
    moreover have "(q + 1) * 1000000000 + (n + r - 1000000000) = n + sint d"
      using qr by (simp add: algebra_simps)
    ultimately show ?thesis using 1 n r unfolding n_def
      by (intro exI[of _ "q + 1"] exI[of _ "n + r - 1000000000"]) (auto simp: n_def)
  next
    case 2
    have "Add t d = addSec (t div 1000000000) (q - 1) * 1000000000 + (n + r + 1000000000)"
      using 2 by (simp add: A)
    moreover have "(q - 1) * 1000000000 + (n + r + 1000000000) = n + sint d"
      using qr by (simp add: algebra_simps)
    ultimately show ?thesis using 2 n r
      by (intro exI[of _ "q - 1"] exI[of _ "n + r + 1000000000"]) (auto simp: n_def)
  next
    case 3
    have "Add t d = addSec (t div 1000000000) q * 1000000000 + (n + r)"
      using 3 by (simp add: A)
    moreover have "q * 1000000000 + (n + r) = n + sint d"
      using qr by (simp add: algebra_simps)
    ultimately show ?thesis using 3
      by (intro exI[of _ q] exI[of _ "n + r"]) (auto simp: n_def)
  qed
qed

lemma Add_exact:
  assumes "minInt64 * 1000000000 \<le> t + sint d" "t + sint d < (maxInt64 + 1) * 1000000000"
  shows "Add t d = t + sint d"
proof -
  from Add_split[of t d] obtain dsec nsec where
    s: "0 \<le> nsec" "nsec < 1000000000"
       "dsec * 1000000000 + nsec = t mod 1000000000 + sint d"
       "Add t d = addSec (t div 1000000000) dsec * 1000000000 + nsec"
    by blast
  define sec where "sec = t div 1000000000"
  have t: "t = sec * 1000000000 + t mod 1000000000" by (simp add: sec_def)
  have sum: "(sec + dsec) * 1000000000 + nsec = t + sint d"
    using s(3) t by (simp add: algebra_simps)
  have lo: "minInt64 \<le> sec + dsec"
  proof (rule ccontr)
    assume "\<not> minInt64 \<le> sec + dsec"
    then have "sec + dsec + 1 \<le> minInt64" by simp
    then have "(sec + dsec + 1) * 1000000000 \<le> minInt64 * 1000000000" by simp
    with sum s(2) assms(1) show False by (simp add: algebra_simps)
  qed
  have hi: "sec + dsec \<le> maxInt64"
  proof (rule ccontr)
    assume "\<not> sec + dsec \<le> maxInt64"
    then have "maxInt64 + 1 \<le> sec + dsec" by simp
    then have "(maxInt64 + 1) * 1000000000 \<le> (sec + dsec) * 1000000000" by simp
    with sum s(1) assms(2) show False by (simp add: algebra_simps)
  qed
  have "addSec sec dsec = sec + dsec"
    using lo hi by (simp add: addSec_def Let_def)
  then show ?thesis using s(4) sum by (simp add: sec_def)
qed

lemma addSec_refines: "sint (addSec_int64 ext d) = addSec (sint ext) (sint d)"
proof -
  define a where "a = sint ext"
  define b where "b = sint d"
  have ra: "- (2 ^ 63) \<le> a" "a < 2 ^ 63" using sint_ge[of ext] sint_lt[of ext] by (simp_all add: a_def)
  have rb: "- (2 ^ 63) \<le> b" "b < 2 ^ 63" using sint_ge[of d] sint_lt[of d] by (simp_all add: b_def)
  have s: "sint (ext + d) = (a + b + 2 ^ 63) mod 2 ^ 64 - 2 ^ 63"
    using int_word_sint[of "a + b", where 'a = 64] by (simp add: a_def b_def)
  have w: "sint (ext + d) = (if 2 ^ 63 \<le> a + b then a + b - 2 ^ 64
                            else if a + b < - (2 ^ 63) then a + b + 2 ^ 64 else a + b)"
  proof -
    consider "2 ^ 63 \<le> a + b" | "a + b < - (2 ^ 63)" | "- (2 ^ 63) \<le> a + b" "a + b < 2 ^ 63"
      by linarith
    then show ?thesis
    proof cases
      case 1
      have "(a + b + 2 ^ 63) mod 2 ^ 64 = (a + b + 2 ^ 63 - 2 ^ 64) mod 2 ^ 64"
        by (metis mod_diff_right_eq mod_self diff_zero)
      also have "\<dots> = a + b + 2 ^ 63 - 2 ^ 64"
        using 1 ra rb by (intro mod_pos_pos_trivial) simp_all
      finally show ?thesis using 1 by (simp add: s)
    next
      case 2
      have "(a + b + 2 ^ 63) mod 2 ^ 64 = (a + b + 2 ^ 63 + 2 ^ 64) mod 2 ^ 64"
        by (simp only: mod_add_self2)
      also have "\<dots> = a + b + 2 ^ 63 + 2 ^ 64"
        using 2 ra rb by (intro mod_pos_pos_trivial) simp_all
      finally show ?thesis using 2 by (simp add: s)
    next
      case 3
      have "(a + b + 2 ^ 63) mod 2 ^ 64 = a + b + 2 ^ 63"
        using 3 by (intro mod_pos_pos_trivial) simp_all
      then show ?thesis using 3 by (simp add: s)
    qed
  qed
  have c1: "(ext <s ext + d) = (a < sint (ext + d))" by (simp add: word_sless_alt a_def)
  have c2: "(0 <s d) = (0 < b)" by (simp add: word_sless_alt b_def)
  have m1: "sint (0x7FFFFFFFFFFFFFFF :: 64 word) = 2 ^ 63 - 1" by simp
  have m2: "sint (- 0x7FFFFFFFFFFFFFFF :: 64 word) = - (2 ^ 63 - 1)" by simp
  show ?thesis
    unfolding addSec_int64_def addSec_def Let_def c1 c2 a_def[symmetric] b_def[symmetric]
    using ra rb by (auto simp: w m1 m2 maxInt64_def minInt64_def split: if_splits)
qed


lemma Add_epoch0: "0 \<le> sint d \<Longrightarrow> Add 0 d = sint d"
  using Add_exact[of 0 d] sint_lt[of d] by (simp add: minInt64_def maxInt64_def)

lemma Now_zero: "currentDuration ac = 0 \<Longrightarrow> Now ac = startTime ac"
  by (simp add: Now_def Add_zero)

section \<open>The methods, called alone\<close>

text \<open>
  With the mutex free, \<^verbatim>\<open>updateClock\<close> and \<^verbatim>\<open>Reset\<close> run to their end and leave it
  free. The published value is 0 for the multiplier 0 and is not positive for a
  negative multiplier; for whole seconds and integer multipliers it is computed without
  any rounding.
\<close>

lemma updateClock_free:
  "\<not> mu ac \<Longrightarrow> updateClock impl now ac =
     Inr (ac\<lparr>currentDuration := accelerated impl (multiplier ac) (Since now (startRealTime ac))\<rparr>)"
  by (simp add: updateClock_def Lock_def Unlock_def Let_def)

lemma Reset_free:
  "\<not> mu ac \<Longrightarrow> Reset now ac = Inr (ac\<lparr>startRealTime := now, currentDuration := 0\<rparr>)"
  by (simp add: Reset_def Lock_def Unlock_def)

lemma toInt64_fits:
  "fits_int64 (Fin r) \<Longrightarrow> sint (toInt64 impl (Fin r)) = trunc r"
  by (simp add: toInt64_def fits_int64_def sint_word_of_int_64)

lemma toInt64_zero: "toInt64 impl (Fin 0) = 0"
  by (simp add: toInt64_def fits_int64_def trunc_def)

lemma accelerated_zero: "accelerated impl (Fin 0) e = 0"
proof -
  obtain s where "Seconds e = Fin s" using Seconds_finite[of e] by blast
  then show ?thesis
    by (simp add: accelerated_def Let_def fmul_def float64_Second round_f64_zero toInt64_zero)
qed

lemma product_nonpos:
  assumes "m < 0" "0 \<le> sint e"
  shows "fmul (fmul (Seconds e) (Fin m)) (float64_of_int (sint Second)) = NInf \<or>
         (\<exists>r. fmul (fmul (Seconds e) (Fin m)) (float64_of_int (sint Second)) = Fin r \<and> r \<le> 0)"
proof -
  obtain s where s: "Seconds e = Fin s" "0 \<le> s"
    using Seconds_finite[of e] assms(2) by blast
  have "s * m \<le> 0" using s(2) assms(1) by (simp add: mult_le_0_iff)
  from round_f64_nonpos[OF this] show ?thesis
  proof
    assume "round_f64 (s * m) = NInf"
    then show ?thesis by (simp add: s(1) fmul_def float64_Second fsgn_def)
  next
    assume "\<exists>r. round_f64 (s * m) = Fin r \<and> r \<le> 0"
    then obtain r where r: "round_f64 (s * m) = Fin r" "r \<le> 0" by blast
    then have "r * 1000000000 \<le> 0" by (simp add: mult_le_0_iff)
    from round_f64_nonpos[OF this] show ?thesis
      by (simp add: s(1) fmul_def float64_Second r(1))
  qed
qed

lemma trunc_nonpos: "r \<le> 0 \<Longrightarrow> trunc r \<le> 0 \<and> (trunc r < 0 \<longleftrightarrow> r \<le> - 1)"
proof -
  assume r: "r \<le> 0"
  have "\<lceil>r\<rceil> \<le> 0" using r by (simp add: ceiling_le_iff)
  moreover have "\<lfloor>r\<rfloor> \<le> 0" using r by (simp add: floor_le_iff)
  moreover have "(\<lceil>r\<rceil> < 0) = (r \<le> - 1)" using ceiling_less_iff[of r 0] by simp
  moreover have "r = 0 \<Longrightarrow> \<lfloor>r\<rfloor> = 0" by simp
  ultimately show ?thesis using r by (auto simp: trunc_def)
qed

lemma Since_word:
  "t \<le> now \<Longrightarrow> now - t < 2 ^ 63 \<Longrightarrow> Since now t = word_of_int (now - t)"
  by (simp add: Since_def Let_def maxDuration_def minDuration_def del: of_int_diff)

lemma Seconds_whole:
  assumes "0 \<le> k" "k < 2 ^ 33"
  shows "Seconds (word_of_int (k * 1000000000)) = Fin (of_int k)"
proof -
  have "k * 1000000000 < 2 ^ 33 * 1000000000" using assms(2) by simp
  then have "k * 1000000000 < 2 ^ 63" by simp
  moreover have "0 \<le> k * 1000000000" using assms(1) by simp
  ultimately have sk: "sint (word_of_int (k * 1000000000) :: 64 word) = k * 1000000000"
    by (intro sint_word_of_int_64) simp_all
  have q: "quot (k * 1000000000) 1000000000 = k"
    using assms(1) by (simp add: quot_def sgn_if abs_mult)
  have r: "rem (k * 1000000000) 1000000000 = 0"
    by (simp add: rem_def q)
  have fk: "float64_of_int k = Fin (of_int k)"
    using assms by (intro float64_of_int_exact) simp
  have rk: "round_f64 (of_int k) = Fin (of_int k)"
    using fk by (simp add: float64_of_int_def)
  show ?thesis
    by (simp add: Seconds_def Let_def sint_Second sk q r fk float64_of_int_def round_f64_zero
        fdiv_def fadd_def rk del: of_int_mult)
qed

lemma product_whole:
  assumes "0 \<le> k" "k < 2 ^ 33" "\<bar>k * p * 1000000000\<bar> < 2 ^ 53"
  shows "fmul (fmul (Seconds (word_of_int (k * 1000000000))) (Fin (of_int p)))
           (float64_of_int (sint Second)) = Fin (of_int (k * p * 1000000000))"
proof -
  have "\<bar>k * p\<bar> \<le> \<bar>k * p\<bar> * 1000000000" by simp
  also have "\<dots> = \<bar>k * p * 1000000000\<bar>" by (simp add: abs_mult)
  finally have kp: "\<bar>k * p\<bar> < 2 ^ 53" using assms(3) by simp
  have r1: "round_f64 (of_int (k * p)) = Fin (of_int (k * p))"
    using float64_of_int_exact[OF kp] by (simp add: float64_of_int_def)
  have r2: "round_f64 (of_int (k * p * 1000000000)) = Fin (of_int (k * p * 1000000000))"
    using float64_of_int_exact[OF assms(3)] by (simp add: float64_of_int_def)
  have "fmul (Fin (of_int k)) (Fin (of_int p)) = Fin (of_int (k * p))"
    using r1 by (simp add: fmul_def)
  moreover have "fmul (Fin (of_int (k * p))) (Fin 1000000000) = Fin (of_int (k * p * 1000000000))"
    using r2 by (simp add: fmul_def)
  ultimately show ?thesis
    by (simp add: Seconds_whole[OF assms(1,2)] float64_Second del: of_int_mult)
qed

lemma accelerated_whole:
  assumes "0 \<le> k" "k < 2 ^ 33" "\<bar>k * p * 1000000000\<bar> < 2 ^ 53"
  shows "accelerated impl (Fin (of_int p)) (word_of_int (k * 1000000000)) =
           word_of_int (k * p * 1000000000)"
proof -
  have "trunc (of_int (k * p * 1000000000)) = k * p * 1000000000"
    by (simp add: trunc_def del: of_int_mult)
  moreover have "\<bar>k * p * 1000000000\<bar> < 2 ^ 63"
    using assms(3) by (rule less_le_trans) simp
  ultimately have "fits_int64 (Fin (of_int (k * p * 1000000000)))"
    unfolding fits_int64_def by (simp del: of_int_mult) linarith
  then show ?thesis
    by (simp add: accelerated_def Let_def product_whole[OF assms] toInt64_def trunc_def
        del: of_int_mult)
qed

lemma product_backward_slow:
  "fmul (fmul (Seconds 1000000000) (Fin (- 1 / 2 ^ 31))) (float64_of_int (sint Second))
     = Fin (- 1953125 / 4194304)"
proof -
  have s: "Seconds 1000000000 = Fin 1" using Seconds_whole[of 1] by simp
  have a: "round_f64 (- 1 / 2 ^ 31) = Fin (- 1 / 2 ^ 31)"
    by (rule round_f64_exactI[of _ "- 1" "- 31"]) (simp_all add: power_int_minus field_simps)
  have b: "round_f64 (- 1953125 / 4194304) = Fin (- 1953125 / 4194304)"
    by (rule round_f64_exactI[of _ "- 1953125" "- 22"]) (simp_all add: power_int_minus field_simps)
  show ?thesis
    using a b by (simp add: s fmul_def float64_Second)
qed

lemma Stops_stopped:
  "once ac \<Longrightarrow> Stops n ac = Inr ac \<and> closes n ac = 0"
  by (induction n) (simp_all add: Stop_def)

section \<open>Steps of the interleaved system\<close>

text \<open>
  No step writes the virtual epoch, the multiplier, the stored interval, or the period of
  the ticker; every step keeps the \<^verbatim>\<open>sync.Once\<close> in agreement with the channel, so no
  schedule ever closes the channel twice.
\<close>

lemma Stop_cases:
  "Stop ac = (if once ac then Inr ac
              else if done_chan ac = Open then Inr (ac\<lparr>done_chan := Closed, once := True\<rparr>)
              else Inl Panic)"
  by (cases "done_chan ac") (simp_all add: Stop_def close_def)

lemma Stop_guarded:
  "once_guards_done ac \<Longrightarrow> Stop ac = Inr (if once ac then ac else ac\<lparr>done_chan := Closed, once := True\<rparr>)"
  by (cases "done_chan ac") (auto simp: Stop_cases once_guards_done_def)

lemma Stop_frame:
  assumes "Stop ac = Inr ac'"
  shows "multiplier ac' = multiplier ac" "tickerInterval ac' = tickerInterval ac"
    "startTime ac' = startTime ac" "startRealTime ac' = startRealTime ac"
    "currentDuration ac' = currentDuration ac" "mu ac' = mu ac"
    "once_guards_done ac \<Longrightarrow> once_guards_done ac'"
  using assms by (auto simp: Stop_cases once_guards_done_def split: if_splits)

lemma Lock_frame:
  assumes "Lock ac = Inr ac'"
  shows "ac' = ac\<lparr>mu := True\<rparr>"
  using assms by (auto simp: Lock_def split: if_splits)

text \<open>What one step leaves alone.\<close>

lemma loop_step_frame:
  assumes "loop_step impl now s = Inr s'"
  shows "startTime (clock s') = startTime (clock s)"
    "multiplier (clock s') = multiplier (clock s)"
    "tickerInterval (clock s') = tickerInterval (clock s)"
    "body (loop s') = body (loop s)" "ticker (loop s') = ticker (loop s)"
    "ctx s' = ctx s" "resets s' = resets s"
    "once_guards_done (clock s) \<Longrightarrow> once_guards_done (clock s')"
  using assms
  by (auto simp: loop_step_def set_pc_def Unlock_def once_guards_done_def
      dest!: Lock_frame dest: Stop_frame split: loop_pc.splits sum.splits)

lemma reset_step_frame:
  assumes "reset_step i now s = Inr s'"
  shows "startTime (clock s') = startTime (clock s)"
    "multiplier (clock s') = multiplier (clock s)"
    "tickerInterval (clock s') = tickerInterval (clock s)"
    "loop s' = loop s" "ctx s' = ctx s"
    "done_chan (clock s') = done_chan (clock s)" "once (clock s') = once (clock s)"
    "currentDuration (clock s') = currentDuration (clock s) \<or> currentDuration (clock s') = 0"
  using assms
  by (auto simp: reset_step_def Unlock_def dest!: Lock_frame
      split: reset_pc.splits sum.splits if_splits)

lemma step_frame:
  assumes "step impl ev s = Inr s'"
  shows "startTime (clock s') = startTime (clock s)"
    "multiplier (clock s') = multiplier (clock s)"
    "tickerInterval (clock s') = tickerInterval (clock s)"
    "body (loop s') = body (loop s)" "ticker (loop s') = ticker (loop s)"
    "once_guards_done (clock s) \<Longrightarrow> once_guards_done (clock s')"
proof -
  show "startTime (clock s') = startTime (clock s)"
    "multiplier (clock s') = multiplier (clock s)"
    "tickerInterval (clock s') = tickerInterval (clock s)"
    "body (loop s') = body (loop s)" "ticker (loop s') = ticker (loop s)"
    using assms
    by (auto simp: step_def set_pc_def dest: loop_step_frame reset_step_frame Stop_frame
        split: event.splits if_splits sum.splits)
  show "once_guards_done (clock s')" if "once_guards_done (clock s)"
    using assms that
    by (auto simp: step_def set_pc_def once_guards_done_def
        dest: loop_step_frame(8)[unfolded once_guards_done_def] reset_step_frame Stop_frame(7)[unfolded once_guards_done_def]
        split: event.splits if_splits sum.splits)
qed

lemma step_no_Panic:
  assumes "once_guards_done (clock s)"
  shows "step impl ev s \<noteq> Inl Panic"
  using assms
  by (auto simp: step_def loop_step_def reset_step_def Stop_guarded Lock_def
      split: event.splits loop_pc.splits reset_pc.splits sum.splits if_splits)

lemma exec_frame:
  assumes "exec impl evs s = Inr s'"
  shows "startTime (clock s') = startTime (clock s) \<and>
    multiplier (clock s') = multiplier (clock s) \<and>
    tickerInterval (clock s') = tickerInterval (clock s) \<and>
    body (loop s') = body (loop s) \<and> ticker (loop s') = ticker (loop s) \<and>
    (once_guards_done (clock s) \<longrightarrow> once_guards_done (clock s'))"
  using assms
proof (induction evs arbitrary: s)
  case Nil
  then show ?case by simp
next
  case (Cons ev evs)
  then obtain s1 where s1: "step impl ev s = Inr s1" "exec impl evs s1 = Inr s'"
    by (auto split: sum.splits)
  from Cons.IH[OF s1(2)] step_frame[OF s1(1)] show ?case by simp
qed

lemma exec_no_Panic:
  assumes "once_guards_done (clock s)"
  shows "exec impl evs s \<noteq> Inl Panic"
  using assms
proof (induction evs arbitrary: s)
  case Nil
  then show ?case by simp
next
  case (Cons ev evs)
  show ?case
  proof (cases "step impl ev s")
    case (Inl e)
    with step_no_Panic[OF Cons.prems, of impl ev] show ?thesis by auto
  next
    case (Inr s1)
    with step_frame(6)[OF Inr Cons.prems] Cons.IH[of s1] show ?thesis by simp
  qed
qed

text \<open>Once the goroutine has returned.\<close>

lemma step_Returned:
  assumes "pc (loop s) = Returned" "step impl ev s = Inr s'"
  shows "pc (loop s') = Returned"
    "currentDuration (clock s') = currentDuration (clock s) \<or> currentDuration (clock s') = 0"
    "\<not> is_ResetStep ev \<Longrightarrow> currentDuration (clock s') = currentDuration (clock s)"
  using assms
  by (auto simp: step_def loop_step_def set_pc_def is_ResetStep_def
      dest: reset_step_frame Stop_frame
      split: event.splits if_splits sum.splits)

lemma exec_Returned:
  assumes "pc (loop s) = Returned" "exec impl evs s = Inr s'"
  shows "pc (loop s') = Returned \<and>
    (currentDuration (clock s') = currentDuration (clock s) \<or> currentDuration (clock s') = 0) \<and>
    ((\<forall>ev \<in> set evs. \<not> is_ResetStep ev) \<longrightarrow> currentDuration (clock s') = currentDuration (clock s))"
  using assms
proof (induction evs arbitrary: s)
  case Nil
  then show ?case by simp
next
  case (Cons ev evs)
  then obtain s1 where s1: "step impl ev s = Inr s1" "exec impl evs s1 = Inr s'"
    by (auto split: sum.splits)
  note st = step_Returned[OF Cons.prems(1) s1(1)]
  from Cons.IH[OF st(1) s1(2)] st(2,3) show ?case by auto
qed

lemma New_guarded:
  "once_guards_done (clock (New now m))"
  "once_guards_done (clock (NewCustom now st m d))"
  "once_guards_done (clock (NewCtx c now m))"
  "once_guards_done (clock (NewCustomCtx c now st m d))"
  by (simp_all add: New_def NewCustom_def NewCtx_def NewCustomCtx_def Let_def once_guards_done_def)

lemmas run_simps = step_def loop_step_def reset_step_def set_pc_def Lock_def Unlock_def
  Stop_def close_def New_def NewCtx_def NewCustom_def NewCustomCtx_def run_def
  runWithContext_def Let_def

lemma Since_5s: "Since 5000000000 0 = 5000000000"
  using Since_word[of 0 5000000000] by simp

lemma accelerated_5s: "accelerated impl (Fin 1) 5000000000 = 5000000000"
  using accelerated_whole[of 5 1 impl] by simp

lemma Since_2s: "Since 2000000000 0 = 2000000000"
  using Since_word[of 0 2000000000] by simp

lemma accelerated_2s: "accelerated impl (Fin 1) 2000000000 = 2000000000"
  using accelerated_whole[of 2 1 impl] by simp

lemma Reset_call_steps:
  assumes "\<not> mu (clock s)"
  shows "exec impl [CallReset, ResetStep (length (resets s)) t1, ResetStep (length (resets s)) t2,
                    ResetStep (length (resets s)) t3, ResetStep (length (resets s)) t4] s =
         Inr (s\<lparr>clock := (clock s)\<lparr>startRealTime := t2, currentDuration := 0\<rparr>,
                resets := resets s @ [RstReturned]\<rparr>)"
  using assms
  by (simp add: step_def reset_step_def Lock_def Unlock_def nth_append)

subsection \<open>Stop and the context in a schedule\<close>

lemma Stop_result:
  "once_guards_done ac \<Longrightarrow> Stop ac = Inr (ac\<lparr>done_chan := Closed, once := True\<rparr>)"
  by (cases "done_chan ac") (auto simp: Stop_cases once_guards_done_def)

lemma step_CallStop:
  "once_guards_done (clock s) \<Longrightarrow>
   step impl CallStop s = Inr (s\<lparr>clock := (clock s)\<lparr>done_chan := Closed, once := True\<rparr>\<rparr>)"
  by (simp add: step_def Stop_result)

lemma step_CallStop_stopped: "once (clock s) \<Longrightarrow> step impl CallStop s = Inr s"
  by (simp add: step_def Stop_def)

lemma step_once:
  assumes "step impl ev s = Inr s'"
  shows "once (clock s) \<Longrightarrow> once (clock s')"
    and "runs_close ev s \<Longrightarrow> once (clock s')"
    and "\<not> runs_close ev s \<Longrightarrow> once (clock s') = once (clock s)"
  using assms
  by (auto simp: step_def loop_step_def set_pc_def runs_close_def Stop_cases Unlock_def
      dest: reset_step_frame(7) dest!: Lock_frame
      split: event.splits loop_pc.splits if_splits sum.splits)

lemma exec_once_stable:
  assumes "exec impl evs s = Inr s'" "once (clock s)"
  shows "once (clock s')"
  using assms
proof (induction evs arbitrary: s)
  case Nil
  then show ?case by simp
next
  case (Cons ev evs)
  then obtain s1 where s1: "step impl ev s = Inr s1" "exec impl evs s1 = Inr s'"
    by (auto split: sum.splits)
  from Cons.IH[OF s1(2) step_once(1)[OF s1(1) Cons.prems(2)]] show ?case .
qed

lemma exec_CallStop_fires:
  assumes "exec impl evs s = Inr s'" "CallStop \<in> set evs" "once_guards_done (clock s)"
  shows "once (clock s') \<and> done_chan (clock s') = Closed"
proof -
  have "once (clock s')" using assms
  proof (induction evs arbitrary: s)
    case Nil
    then show ?case by simp
  next
    case (Cons ev evs)
    then obtain s1 where s1: "step impl ev s = Inr s1" "exec impl evs s1 = Inr s'"
      by (auto split: sum.splits)
    note g1 = step_frame(6)[OF s1(1) Cons.prems(3)]
    show ?case
    proof (cases "ev = CallStop")
      case True
      with s1(1) Cons.prems(3) have "once (clock s1)" by (auto simp: step_CallStop)
      with s1(2) show ?thesis by (rule exec_once_stable)
    next
      case False
      with Cons.prems(2) have "CallStop \<in> set evs" by simp
      from Cons.IH[OF s1(2) this g1] show ?thesis .
    qed
  qed
  moreover from exec_frame[OF assms(1)] assms(3) have "once_guards_done (clock s')" by simp
  ultimately show ?thesis by (simp add: once_guards_done_def)
qed

lemma exec_closes_stopped: "once (clock s) \<Longrightarrow> exec_closes impl evs s = 0"
proof (induction evs arbitrary: s)
  case Nil
  then show ?case by simp
next
  case (Cons ev evs)
  have nc: "\<not> runs_close ev s"
    using Cons.prems by (simp add: runs_close_def split: event.splits)
  show ?case
  proof (cases "step impl ev s")
    case (Inl e)
    with nc show ?thesis by simp
  next
    case (Inr s1)
    from Cons.IH[OF step_once(1)[OF Inr Cons.prems]] nc Inr show ?thesis by simp
  qed
qed

lemma exec_closes_count:
  assumes "exec impl evs s = Inr s'" "\<not> once (clock s)"
  shows "exec_closes impl evs s = (if once (clock s') then 1 else 0)"
  using assms
proof (induction evs arbitrary: s)
  case Nil
  then show ?case by simp
next
  case (Cons ev evs)
  then obtain s1 where s1: "step impl ev s = Inr s1" "exec impl evs s1 = Inr s'"
    by (auto split: sum.splits)
  show ?case
  proof (cases "runs_close ev s")
    case True
    from step_once(2)[OF s1(1) True] have o1: "once (clock s1)" .
    from exec_once_stable[OF s1(2) o1] exec_closes_stopped[OF o1, of impl evs] True s1(1)
    show ?thesis by simp
  next
    case False
    from step_once(3)[OF s1(1) False] Cons.prems(2) have "\<not> once (clock s1)" by simp
    from Cons.IH[OF s1(2) this] False s1(1) show ?thesis by simp
  qed
qed




subsection \<open>The mutex\<close>

lemma length_filter_update:
  "i < length xs \<Longrightarrow>
   length (filter P (xs[i := v])) + (if P (xs ! i) then 1 else 0) =
   length (filter P xs) + (if P v then 1 else 0)"
proof (induction xs arbitrary: i)
  case Nil
  then show ?case by simp
next
  case (Cons x xs)
  show ?case
  proof (cases i)
    case 0
    then show ?thesis by simp
  next
    case (Suc j)
    with Cons.prems have "j < length xs" by simp
    from Cons.IH[OF this] Suc show ?thesis by simp
  qed
qed

lemma New_mutex_ok:
  "mutex_ok (New now m)" "mutex_ok (NewCustom now st m d)"
  "mutex_ok (NewCtx c now m)" "mutex_ok (NewCustomCtx c now st m d)"
  by (simp_all add: mutex_ok_def holders_def loop_holds_def New_def NewCustom_def NewCtx_def
      NewCustomCtx_def run_def runWithContext_def Let_def)

lemma loop_step_mutex_ok:
  assumes "loop_step impl now s = Inr s'" "mutex_ok s"
  shows "mutex_ok s'"
  using assms
  by (auto simp: loop_step_def set_pc_def mutex_ok_def holders_def loop_holds_def Lock_def
      Unlock_def dest: Stop_frame(6) split: loop_pc.splits sum.splits if_splits)

lemma reset_step_mutex_ok:
  assumes "reset_step i now s = Inr s'" "mutex_ok s"
  shows "mutex_ok s'"
proof -
  from assms(1) have i: "i < length (resets s)"
    by (auto simp: reset_step_def split: if_splits)
  note upd = length_filter_update[OF i, of reset_holds]
  show ?thesis
  proof (cases "resets s ! i")
    case RstLock
    with assms i upd[of RstEpoch] show ?thesis
      by (auto simp: reset_step_def mutex_ok_def holders_def reset_holds_def Lock_def
          split: if_splits)
  next
    case RstEpoch
    with assms i upd[of RstStore] show ?thesis
      by (auto simp: reset_step_def mutex_ok_def holders_def reset_holds_def split: if_splits)
  next
    case RstStore
    with assms i upd[of RstUnlock] show ?thesis
      by (auto simp: reset_step_def mutex_ok_def holders_def reset_holds_def split: if_splits)
  next
    case RstUnlock
    with assms i upd[of RstReturned] show ?thesis
      by (auto simp: reset_step_def mutex_ok_def holders_def reset_holds_def Unlock_def
          split: if_splits)
  next
    case RstReturned
    with assms i show ?thesis by (simp add: reset_step_def)
  qed
qed

lemma step_mutex_ok:
  assumes "step impl ev s = Inr s'" "mutex_ok s"
  shows "mutex_ok s'"
proof (cases ev)
  case (LoopStep now)
  with assms show ?thesis by (auto simp: step_def dest: loop_step_mutex_ok)
next
  case (ResetStep i now)
  with assms show ?thesis by (auto simp: step_def dest: reset_step_mutex_ok)
next
  case CallStop
  with assms show ?thesis
    by (auto simp: step_def mutex_ok_def holders_def dest: Stop_frame(6) split: sum.splits)
qed (use assms in \<open>auto simp: step_def set_pc_def mutex_ok_def holders_def loop_holds_def
      reset_holds_def split: if_splits\<close>)

lemma exec_mutex_ok:
  assumes "exec impl evs s = Inr s'" "mutex_ok s"
  shows "mutex_ok s'"
  using assms
proof (induction evs arbitrary: s)
  case Nil
  then show ?case by simp
next
  case (Cons ev evs)
  then obtain s1 where s1: "step impl ev s = Inr s1" "exec impl evs s1 = Inr s'"
    by (auto split: sum.splits)
  from Cons.IH[OF s1(2) step_mutex_ok[OF s1(1) Cons.prems(2)]] show ?case .
qed

text \<open>
  While the goroutine is between its \<^verbatim>\<open>Lock\<close> and its \<^verbatim>\<open>Unlock\<close> no call of
  \<^verbatim>\<open>Reset\<close> is inside its own locked section, and none can enter it.
\<close>

lemma epoch_read_excludes_Reset:
  assumes "mutex_ok s" "loop_holds (pc (loop s))"
  shows "mu (clock s) \<and> (\<forall>r \<in> set (resets s). \<not> reset_holds r) \<and>
     (\<forall>i now. i < length (resets s) \<longrightarrow> reset_step i now s = Inl Blocked)"
proof -
  from assms have h: "mu (clock s)" "length (filter reset_holds (resets s)) = 0"
    by (auto simp: mutex_ok_def holders_def split: if_splits)
  from h(2) have none: "\<forall>r \<in> set (resets s). \<not> reset_holds r"
    by (simp add: filter_empty_conv)
  have "reset_step i now s = Inl Blocked" if "i < length (resets s)" for i now
  proof -
    from that none have "\<not> reset_holds (resets s ! i)" by simp
    then show ?thesis using that h(1)
      by (cases "resets s ! i") (auto simp: reset_step_def reset_holds_def Lock_def)
  qed
  with h(1) none show ?thesis by blast
qed

lemma updateClock_steps:
  assumes "pc (loop s) = AtSelect" "\<not> mu (clock s)"
  shows "\<exists>ac'. updateClock impl now (clock s) = Inr ac' \<and>
     exec impl [Ticker, LoopStep t1, LoopStep now, LoopStep t3, LoopStep t4] s =
       Inr (s\<lparr>clock := ac'\<rparr>)"
  using assms
  by (simp add: updateClock_free step_def loop_step_def set_pc_def Lock_def Unlock_def)

section \<open>The claims\<close>

subsection \<open>C1: the period of the ticker\<close>

text \<open>
  C1 asks that the ticker of the background loop fires at the configured update
  interval. Both \<^verbatim>\<open>run\<close> and \<^verbatim>\<open>runWithContext\<close> create their ticker with the constant
  \<^verbatim>\<open>time.Millisecond\<close> and never read the field \<^verbatim>\<open>tickerInterval\<close>: a clock built by
  \<^verbatim>\<open>NewCustom\<close> or \<^verbatim>\<open>NewCustomCtx\<close> with any \<open>updateInterval\<close> ticks every millisecond,
  so with 500 ms the period of the ticker differs from the interval the clock stores.
\<close>

theorem ticker_period_is_Millisecond:
  "ticker (loop (NewCustom now st m d)) = Millisecond \<and>
   ticker (loop (NewCustomCtx c now st m d)) = Millisecond \<and>
   tickerInterval (clock (NewCustom now st m (500 * Millisecond))) = 500 * Millisecond \<and>
   ticker (loop (NewCustom now st m (500 * Millisecond))) \<noteq>
     tickerInterval (clock (NewCustom now st m (500 * Millisecond)))"
  by (simp add: NewCustom_def NewCustomCtx_def run_def runWithContext_def Let_def Millisecond_def)

subsection \<open>C2: what Now returns\<close>




subsection \<open>C3: one tick recomputes the published duration\<close>

text \<open>
  C3 (as amended). One call of \<^verbatim>\<open>updateClock\<close> on a clock whose mutex is free
  publishes the \<^verbatim>\<open>int64\<close> conversion of the float64 product
  \<open>v = Seconds (now - startRealTime) * multiplier * 1e9\<close>, whatever value \<open>w\<close> was
  published before. With multiplier 0 it publishes 0. With a negative multiplier and a
  real epoch that is not in the future, whenever \<open>v\<close> fits an \<^verbatim>\<open>int64\<close> the published
  duration is never positive, and it is negative exactly when \<open>v\<close> is at most \<open>-1\<close>
  (one nanosecond): the conversion discards the fraction, so a smaller product
  publishes 0.
\<close>

theorem updateClock_recomputes:
  assumes "\<not> mu ac"
  shows "\<exists>ac' v.
      v = fmul (fmul (Seconds (Since now (startRealTime ac))) (multiplier ac))
            (float64_of_int (sint Second)) \<and>
      updateClock impl now ac = Inr ac' \<and>
      ac' = ac\<lparr>currentDuration := toInt64 impl v\<rparr> \<and>
      updateClock impl now (ac\<lparr>currentDuration := w\<rparr>) = Inr ac' \<and>
      (multiplier ac = Fin 0 \<longrightarrow> currentDuration ac' = 0) \<and>
      (\<forall>m. multiplier ac = Fin m \<and> m < 0 \<and> startRealTime ac \<le> now \<and> fits_int64 v \<longrightarrow>
         sint (currentDuration ac') \<le> 0 \<and>
         (sint (currentDuration ac') < 0 \<longleftrightarrow> (\<exists>r. v = Fin r \<and> r \<le> - 1)))"
proof -
  define v where "v = fmul (fmul (Seconds (Since now (startRealTime ac))) (multiplier ac))
            (float64_of_int (sint Second))"
  define ac' where "ac' = ac\<lparr>currentDuration := toInt64 impl v\<rparr>"
  have acc: "accelerated impl (multiplier ac) (Since now (startRealTime ac)) = toInt64 impl v"
    by (simp add: accelerated_def Let_def v_def)
  have u1: "updateClock impl now ac = Inr ac'"
    using assms by (simp add: updateClock_free acc ac'_def)
  have u2: "updateClock impl now (ac\<lparr>currentDuration := w\<rparr>) = Inr ac'"
    using assms by (simp add: updateClock_free acc ac'_def)
  have z: "currentDuration ac' = 0" if "multiplier ac = Fin 0"
    using accelerated_zero[of impl "Since now (startRealTime ac)"] acc that
    by (simp add: ac'_def)
  have n: "sint (currentDuration ac') \<le> 0 \<and>
         (sint (currentDuration ac') < 0 \<longleftrightarrow> (\<exists>r. v = Fin r \<and> r \<le> - 1))"
    if m: "multiplier ac = Fin m" "m < 0" "startRealTime ac \<le> now" "fits_int64 v" for m
  proof -
    have "0 \<le> sint (Since now (startRealTime ac))" using m(3) by (rule Since_nonneg)
    from product_nonpos[OF m(2) this] m(4) obtain r where r: "v = Fin r" "r \<le> 0"
      by (auto simp: v_def m(1) fits_int64_def)
    have "sint (currentDuration ac') = trunc r"
      using m(4) by (simp add: ac'_def r(1) toInt64_fits)
    then show ?thesis using trunc_nonpos[OF r(2)] by (simp add: r(1))
  qed
  show ?thesis
    using u1 u2 z n v_def ac'_def by blast
qed

text \<open>
  C3, witness: a clock running backward at twice real time, three seconds after its
  epoch, publishes minus six seconds, also when 77 was published before; a clock with
  multiplier 0 publishes 0.
\<close>

theorem updateClock_recomputes_witness:
  "\<not> mu (clock (New 0 (Fin (- 2)))) \<and>
   multiplier (clock (New 0 (Fin (- 2)))) = Fin (- 2) \<and>
   startRealTime (clock (New 0 (Fin (- 2)))) \<le> 3000000000 \<and>
   updateClock impl_amd64 3000000000 (clock (New 0 (Fin (- 2)))) =
     Inr ((clock (New 0 (Fin (- 2))))\<lparr>currentDuration := - 6000000000\<rparr>) \<and>
   updateClock impl_amd64 3000000000 ((clock (New 0 (Fin (- 2))))\<lparr>currentDuration := 77\<rparr>) =
     Inr ((clock (New 0 (Fin (- 2))))\<lparr>currentDuration := - 6000000000\<rparr>) \<and>
   sint (- 6000000000 :: 64 word) < 0 \<and>
   \<not> mu (clock (New 0 (Fin 0))) \<and>
   updateClock impl_amd64 3000000000 (clock (New 0 (Fin 0))) = Inr (clock (New 0 (Fin 0)))"
proof -
  let ?a = "clock (New 0 (Fin (- 2)))"
  let ?z = "clock (New 0 (Fin 0))"
  have free: "\<not> mu ?a" "\<not> mu ?z" by (simp_all add: New_def Let_def)
  have si: "Since 3000000000 0 = 3000000000" using Since_word[of 0 3000000000] by simp
  have pr: "fmul (fmul (Seconds 3000000000) (Fin (- 2))) (float64_of_int (sint Second))
      = Fin (- 6000000000)"
    using product_whole[of 3 "- 2"] by simp
  have fit: "fits_int64 (Fin (- 6000000000))" by (simp add: fits_int64_def trunc_def)
  have v: "toInt64 impl_amd64 (Fin (- 6000000000)) = - 6000000000"
    by (simp add: toInt64_def fit trunc_def)
  from updateClock_recomputes[OF free(1), of 3000000000 impl_amd64 77]
  have "updateClock impl_amd64 3000000000 ?a = Inr (?a\<lparr>currentDuration := - 6000000000\<rparr>)"
    "updateClock impl_amd64 3000000000 (?a\<lparr>currentDuration := 77\<rparr>)
       = Inr (?a\<lparr>currentDuration := - 6000000000\<rparr>)"
    by (auto simp: New_def Let_def si pr v)
  moreover from updateClock_recomputes[OF free(2), of 3000000000 impl_amd64 0]
  have "updateClock impl_amd64 3000000000 ?z = Inr ?z"
    by (auto simp: New_def Let_def)
  moreover have "sint (- 6000000000 :: 64 word) < 0" by simp
  ultimately show ?thesis by (simp add: New_def Let_def)
qed

text \<open>
  C3, counterexample to "negative once real time has elapsed": with the multiplier
  \<open>-2^-31\<close>, one whole second after the epoch, the product is about \<open>-0.47\<close>
  nanoseconds and the published duration is 0, not negative.
\<close>

theorem updateClock_negative_counterexample:
  "updateClock impl_amd64 1000000000 (clock (New 0 (Fin (- 1 / 2 ^ 31)))) =
     Inr ((clock (New 0 (Fin (- 1 / 2 ^ 31))))\<lparr>currentDuration := 0\<rparr>) \<and>
   multiplier (clock (New 0 (Fin (- 1 / 2 ^ 31)))) = Fin (- 1 / 2 ^ 31) \<and>
   (- 1 / 2 ^ 31 :: rat) < 0 \<and>
   startRealTime (clock (New 0 (Fin (- 1 / 2 ^ 31)))) < 1000000000"
proof -
  have "Since 1000000000 0 = 1000000000" using Since_word[of 0 1000000000] by simp
  moreover have "trunc (- 1953125 / 4194304) = 0"
    by (simp add: trunc_def ceiling_eq_iff)
  then have "toInt64 impl_amd64 (Fin (- 1953125 / 4194304)) = 0"
    by (simp add: toInt64_def fits_int64_def)
  ultimately have "accelerated impl_amd64 (Fin (- 1 / 2 ^ 31)) (Since 1000000000 0) = 0"
    using product_backward_slow by (simp add: accelerated_def Let_def)
  then show ?thesis
    by (simp add: updateClock_free New_def Let_def)
qed

subsection \<open>C4: a tick racing with Reset\<close>

text \<open>
  C4 asks that a tick computed against the epoch before a \<^verbatim>\<open>Reset\<close> is never
  published after that \<^verbatim>\<open>Reset\<close> has stored zero. \<^verbatim>\<open>updateClock\<close> releases the mutex
  right after sampling the elapsed time and stores outside it, while \<^verbatim>\<open>Reset\<close> holds
  the mutex over both of its writes. In the run below a clock of multiplier 1 is built
  at instant 0; at 5 s a tick locks, samples 5 s of elapsed time and unlocks; one
  microsecond later a whole \<^verbatim>\<open>Reset\<close> runs (new epoch, published 0, returned); then
  the tick stores its 5 s. The published duration is 5 s although one microsecond has
  passed since the new epoch, and \<^verbatim>\<open>Now()\<close> is the virtual epoch plus 5 s. What the
  mutex does give is \<open>epoch_read_excludes_Reset\<close>: the sample itself is taken while no
  \<^verbatim>\<open>Reset\<close> is writing.
\<close>

theorem stale_tick_published_after_Reset:
  "exec impl_amd64
     [Ticker, LoopStep 5000000000, LoopStep 5000000000, LoopStep 5000000000,
      CallReset, ResetStep 0 5000001000, ResetStep 0 5000001000, ResetStep 0 5000001000,
      ResetStep 0 5000001000]
     (New 0 (Fin 1)) =
   Inr \<lparr>clock = (clock (New 0 (Fin 1)))\<lparr>startRealTime := 5000001000, currentDuration := 0\<rparr>,
        loop = (loop (New 0 (Fin 1)))\<lparr>pc := UpdStore 5000000000\<rparr>,
        ctx = None, resets = [RstReturned]\<rparr> \<and>
   exec impl_amd64
     [Ticker, LoopStep 5000000000, LoopStep 5000000000, LoopStep 5000000000,
      CallReset, ResetStep 0 5000001000, ResetStep 0 5000001000, ResetStep 0 5000001000,
      ResetStep 0 5000001000, LoopStep 5000002000]
     (New 0 (Fin 1)) =
   Inr \<lparr>clock = (clock (New 0 (Fin 1)))\<lparr>startRealTime := 5000001000,
                                            currentDuration := 5000000000\<rparr>,
        loop = loop (New 0 (Fin 1)), ctx = None, resets = [RstReturned]\<rparr> \<and>
   Now ((clock (New 0 (Fin 1)))\<lparr>startRealTime := 5000001000, currentDuration := 5000000000\<rparr>)
     = startTime (clock (New 0 (Fin 1))) + 5000000000"
  by (simp add: run_simps Since_5s accelerated_5s Now_def Add_epoch0)

subsection \<open>C5: Stop any number of times\<close>

text \<open>
  C5. On a clock whose \<^verbatim>\<open>sync.Once\<close> agrees with its channel (every constructed clock,
  and every state reached from one) any number \<open>n \<ge> 1\<close> of \<^verbatim>\<open>Stop\<close> calls returns
  without panic, leaves the channel closed and the state exactly as the first call
  left it, and executes \<^verbatim>\<open>close\<close> once (not at all if the clock was stopped already).
  Calls from several goroutines are steps \<open>CallStop\<close> of the interleaved system. Such a
  step is always executable and does to the clock what \<^verbatim>\<open>Stop\<close> does. No schedule
  panics, and every schedule that runs to its end and holds a \<open>CallStop\<close> ends with the
  channel closed and the \<^verbatim>\<open>sync.Once\<close> fired, in a state that a further \<open>CallStop\<close>
  leaves as it is, having executed \<^verbatim>\<open>close\<close> exactly once along the way (not at all if
  the clock was stopped already).
\<close>

theorem Stop_idempotent:
  assumes "once_guards_done ac" and "0 < n"
  shows "Stop ac = Inr (ac\<lparr>done_chan := Closed, once := True\<rparr>) \<and>
     Stops n ac = Stop ac \<and>
     closes n ac = (if once ac then 0 else 1) \<and>
     (\<forall>impl evs s. clock s = ac \<longrightarrow> exec impl evs s \<noteq> Inl Panic) \<and>
     (\<forall>impl s. clock s = ac \<longrightarrow>
        step impl CallStop s = Inr (s\<lparr>clock := ac\<lparr>done_chan := Closed, once := True\<rparr>\<rparr>)) \<and>
     (\<forall>impl evs s s'. clock s = ac \<and> CallStop \<in> set evs \<and> exec impl evs s = Inr s' \<longrightarrow>
        done_chan (clock s') = Closed \<and> once (clock s') \<and>
        step impl CallStop s' = Inr s' \<and>
        exec_closes impl evs s = (if once ac then 0 else 1))"
proof -
  obtain k where n: "n = Suc k" using assms(2) by (cases n) auto
  let ?ac' = "ac\<lparr>done_chan := Closed, once := True\<rparr>"
  have st: "Stop ac = Inr ?ac'"
    using assms(1) by (rule Stop_result)
  have "once ?ac'" by simp
  from Stops_stopped[OF this, of k] have rest: "Stops k ?ac' = Inr ?ac'" "closes k ?ac' = 0"
    by auto
  have c2: "Stops n ac = Stop ac" by (simp add: n st rest)
  have c3: "closes n ac = (if once ac then 0 else 1)" by (simp add: n st rest)
  have c4: "\<forall>impl evs s. clock s = ac \<longrightarrow> exec impl evs s \<noteq> Inl Panic"
  proof (intro allI impI)
    fix impl :: "float64 \<Rightarrow> 64 word" and evs and s :: system
    assume "clock s = ac"
    with exec_no_Panic[of s impl evs] assms(1) show "exec impl evs s \<noteq> Inl Panic" by simp
  qed
  have c5: "\<forall>impl s. clock s = ac \<longrightarrow> step impl CallStop s = Inr (s\<lparr>clock := ?ac'\<rparr>)"
  proof (intro allI impI)
    fix impl :: "float64 \<Rightarrow> 64 word" and s :: system
    assume "clock s = ac"
    with step_CallStop[of s impl] assms(1)
    show "step impl CallStop s = Inr (s\<lparr>clock := ?ac'\<rparr>)" by simp
  qed
  have c6: "done_chan (clock s') = Closed \<and> once (clock s') \<and>
        step impl CallStop s' = Inr s' \<and>
        exec_closes impl evs s = (if once ac then 0 else 1)"
    if h: "clock s = ac \<and> CallStop \<in> set evs \<and> exec impl evs s = Inr s'" for impl evs s s'
  proof -
    from h assms(1) have g: "once_guards_done (clock s)" by simp
    from h have ex: "exec impl evs s = Inr s'" and mem: "CallStop \<in> set evs" by simp_all
    from exec_CallStop_fires[OF ex mem g]
    have f: "once (clock s')" "done_chan (clock s') = Closed" by simp_all
    have "exec_closes impl evs s = (if once ac then 0 else 1)"
    proof (cases "once ac")
      case True
      with h exec_closes_stopped[of s impl evs] show ?thesis by simp
    next
      case False
      with h have "\<not> once (clock s)" by simp
      from exec_closes_count[OF ex this] f(1) False show ?thesis by simp
    qed
    with f step_CallStop_stopped[OF f(1), of impl] show ?thesis by simp
  qed
  have c6': "\<forall>impl evs s s'. clock s = ac \<and> CallStop \<in> set evs \<and> exec impl evs s = Inr s' \<longrightarrow>
        done_chan (clock s') = Closed \<and> once (clock s') \<and>
        step impl CallStop s' = Inr s' \<and>
        exec_closes impl evs s = (if once ac then 0 else 1)"
    by (intro allI impI) (rule c6)
  show ?thesis
    by (rule conjI[OF st conjI[OF c2 conjI[OF c3 conjI[OF c4 conjI[OF c5 c6']]]]])
qed

text \<open>
  C5, witness: three calls on a fresh clock close the channel once. In a schedule of a
  clock of multiplier 1, three \<open>CallStop\<close> steps race with a tick at 2 s and with the exit
  of the loop: the schedule runs to its end, the channel is closed once, and the last
  \<open>CallStop\<close> changes nothing.
\<close>

theorem Stop_idempotent_witness:
  "once_guards_done (clock (New 0 (Fin 1))) \<and> (0::nat) < 3 \<and>
   Stops 3 (clock (New 0 (Fin 1))) =
     Inr ((clock (New 0 (Fin 1)))\<lparr>done_chan := Closed, once := True\<rparr>) \<and>
   closes 3 (clock (New 0 (Fin 1))) = 1 \<and>
   CallStop \<in> set [Ticker, CallStop, LoopStep 2000000000, CallStop, LoopStep 2000000000,
                     LoopStep 2000000000, LoopStep 2000000000, DoneCase, CallStop] \<and>
   exec impl_amd64 [Ticker, CallStop, LoopStep 2000000000, CallStop, LoopStep 2000000000,
                    LoopStep 2000000000, LoopStep 2000000000, DoneCase, CallStop]
     (New 0 (Fin 1)) =
   Inr \<lparr>clock = (clock (New 0 (Fin 1)))\<lparr>currentDuration := 2000000000,
                                            done_chan := Closed, once := True\<rparr>,
        loop = (loop (New 0 (Fin 1)))\<lparr>pc := Returned\<rparr>, ctx = None, resets = []\<rparr> \<and>
   exec_closes impl_amd64 [Ticker, CallStop, LoopStep 2000000000, CallStop,
                           LoopStep 2000000000, LoopStep 2000000000, LoopStep 2000000000,
                           DoneCase, CallStop] (New 0 (Fin 1)) = 1 \<and>
   step impl_amd64 CallStop
     \<lparr>clock = (clock (New 0 (Fin 1)))\<lparr>currentDuration := 2000000000,
                                            done_chan := Closed, once := True\<rparr>,
        loop = (loop (New 0 (Fin 1)))\<lparr>pc := Returned\<rparr>, ctx = None, resets = []\<rparr> =
   Inr \<lparr>clock = (clock (New 0 (Fin 1)))\<lparr>currentDuration := 2000000000,
                                            done_chan := Closed, once := True\<rparr>,
        loop = (loop (New 0 (Fin 1)))\<lparr>pc := Returned\<rparr>, ctx = None, resets = []\<rparr>"
proof -
  let ?evs = "[Ticker, CallStop, LoopStep 2000000000, CallStop, LoopStep 2000000000,
               LoopStep 2000000000, LoopStep 2000000000, DoneCase, CallStop]"
  let ?s' = "\<lparr>clock = (clock (New 0 (Fin 1)))\<lparr>currentDuration := 2000000000,
                                            done_chan := Closed, once := True\<rparr>,
        loop = (loop (New 0 (Fin 1)))\<lparr>pc := Returned\<rparr>, ctx = None, resets = []\<rparr>"
  have g: "once_guards_done (clock (New 0 (Fin 1)))" by (rule New_guarded)
  have o: "\<not> once (clock (New 0 (Fin 1)))" by (simp add: New_def Let_def)
  have pos: "(0::nat) < 3" by simp
  note th = Stop_idempotent[OF g pos]
  note th1 = th[THEN conjunct1]
  note th2 = th[THEN conjunct2, THEN conjunct1]
  note th3 = th[THEN conjunct2, THEN conjunct2, THEN conjunct1]
  note th6 = th[THEN conjunct2, THEN conjunct2, THEN conjunct2, THEN conjunct2, THEN conjunct2,
      rule_format]
  have mem: "CallStop \<in> set ?evs" by simp
  have run: "exec impl_amd64 ?evs (New 0 (Fin 1)) = Inr ?s'"
    by (simp add: run_simps Since_2s accelerated_2s)
  have "Stops 3 (clock (New 0 (Fin 1))) =
      Inr ((clock (New 0 (Fin 1)))\<lparr>done_chan := Closed, once := True\<rparr>)"
    using th1 th2 by simp
  moreover have "closes 3 (clock (New 0 (Fin 1))) = 1"
    using th3 o by simp
  moreover have "step impl_amd64 CallStop ?s' = Inr ?s' \<and>
      exec_closes impl_amd64 ?evs (New 0 (Fin 1)) = 1"
    using th6[OF conjI[OF refl conjI[OF mem run]]] o by simp
  ultimately show ?thesis using g run by simp
qed

subsection \<open>C6: what Reset changes\<close>

text \<open>
  C6. \<^verbatim>\<open>Reset\<close>, called when the mutex is free, sets the real epoch to the current
  real time and the published duration to 0 and leaves every other field as it was, so
  \<^verbatim>\<open>Now()\<close> on the result is the virtual epoch.
\<close>

theorem Reset_frame:
  assumes "\<not> mu ac"
  shows "\<exists>ac'. Reset now ac = Inr ac' \<and>
      ac' = ac\<lparr>startRealTime := now, currentDuration := 0\<rparr> \<and>
      startRealTime ac' = now \<and> currentDuration ac' = 0 \<and>
      startTime ac' = startTime ac \<and> multiplier ac' = multiplier ac \<and>
      tickerInterval ac' = tickerInterval ac \<and> done_chan ac' = done_chan ac \<and>
      once ac' = once ac \<and> mu ac' = mu ac \<and>
      Now ac' = startTime ac"
  using assms by (simp add: Reset_free Now_zero)

text \<open>
  C6, witness: a clock with virtual epoch 5 and 12 ns published, reset at instant 9.
\<close>

theorem Reset_frame_witness:
  "\<not> mu ((clock (New 5 (Fin 2)))\<lparr>currentDuration := 12\<rparr>) \<and>
   Reset 9 ((clock (New 5 (Fin 2)))\<lparr>currentDuration := 12\<rparr>) =
     Inr ((clock (New 5 (Fin 2)))\<lparr>startRealTime := 9\<rparr>) \<and>
   Now ((clock (New 5 (Fin 2)))\<lparr>startRealTime := 9\<rparr>) = 5"
proof -
  have free: "\<not> mu ((clock (New 5 (Fin 2)))\<lparr>currentDuration := 12\<rparr>)"
    by (simp add: New_def Let_def)
  from Reset_frame[OF free, of 9] show ?thesis
    by (auto simp: New_def Let_def)
qed

subsection \<open>C7: after the loop has returned\<close>

text \<open>
  C7 (as amended). Once the goroutine has returned it stays returned on every schedule,
  so no tick ever stores again: the published duration can only keep its value or be
  set to 0 by a \<^verbatim>\<open>Reset\<close> (claim C8), and on every schedule in which no instruction of
  a \<^verbatim>\<open>Reset\<close> runs \<^verbatim>\<open>Now()\<close> returns the same instant, whatever the real clock
  reads.
\<close>

theorem frozen_after_loop_returned:
  assumes "pc (loop s) = Returned" and "exec impl evs s = Inr s'"
  shows "pc (loop s') = Returned \<and>
     (currentDuration (clock s') = currentDuration (clock s) \<or> currentDuration (clock s') = 0) \<and>
     ((\<forall>ev \<in> set evs. \<not> is_ResetStep ev) \<longrightarrow>
        currentDuration (clock s') = currentDuration (clock s) \<and> Now (clock s') = Now (clock s))"
proof -
  from exec_frame[OF assms(2)] have "startTime (clock s') = startTime (clock s)" by simp
  with exec_Returned[OF assms] show ?thesis by (auto simp: Now_def)
qed

text \<open>
  C7, witness: a clock of multiplier 1 ticks at 2 s, is stopped and its loop returns;
  a further \<^verbatim>\<open>Stop\<close> and the start of a \<^verbatim>\<open>Reset\<close> call leave \<^verbatim>\<open>Now()\<close> at 2 s.
\<close>

theorem frozen_after_loop_returned_witness:
  "exec impl_amd64
     [Ticker, LoopStep 2000000000, LoopStep 2000000000, LoopStep 2000000000,
      LoopStep 2000000000, CallStop, DoneCase]
     (New 0 (Fin 1)) =
   Inr \<lparr>clock = (clock (New 0 (Fin 1)))\<lparr>currentDuration := 2000000000,
                                            done_chan := Closed, once := True\<rparr>,
        loop = (loop (New 0 (Fin 1)))\<lparr>pc := Returned\<rparr>, ctx = None, resets = []\<rparr> \<and>
   exec impl_amd64 [CallStop, CallReset]
     \<lparr>clock = (clock (New 0 (Fin 1)))\<lparr>currentDuration := 2000000000,
                                            done_chan := Closed, once := True\<rparr>,
        loop = (loop (New 0 (Fin 1)))\<lparr>pc := Returned\<rparr>, ctx = None, resets = []\<rparr> =
   Inr \<lparr>clock = (clock (New 0 (Fin 1)))\<lparr>currentDuration := 2000000000,
                                            done_chan := Closed, once := True\<rparr>,
        loop = (loop (New 0 (Fin 1)))\<lparr>pc := Returned\<rparr>, ctx = None, resets = [RstLock]\<rparr> \<and>
   Now ((clock (New 0 (Fin 1)))\<lparr>currentDuration := 2000000000,
                                 done_chan := Closed, once := True\<rparr>) = 2000000000"
proof -
  let ?c = "(clock (New 0 (Fin 1)))\<lparr>currentDuration := 2000000000,
                                            done_chan := Closed, once := True\<rparr>"
  let ?s = "\<lparr>clock = ?c, loop = (loop (New 0 (Fin 1)))\<lparr>pc := Returned\<rparr>, ctx = None,
             resets = []\<rparr>"
  let ?s' = "\<lparr>clock = ?c, loop = (loop (New 0 (Fin 1)))\<lparr>pc := Returned\<rparr>, ctx = None,
             resets = [RstLock]\<rparr>"
  have run1: "exec impl_amd64
     [Ticker, LoopStep 2000000000, LoopStep 2000000000, LoopStep 2000000000,
      LoopStep 2000000000, CallStop, DoneCase] (New 0 (Fin 1)) = Inr ?s"
    by (simp add: run_simps Since_2s accelerated_2s)
  have ret: "pc (loop ?s) = Returned" by simp
  have run2: "exec impl_amd64 [CallStop, CallReset] ?s = Inr ?s'"
    by (simp add: run_simps)
  have quiet: "\<forall>ev \<in> set [CallStop, CallReset]. \<not> is_ResetStep ev"
    by (simp add: is_ResetStep_def)
  from frozen_after_loop_returned[OF ret run2] quiet
  have "Now (clock ?s') = Now (clock ?s)" by blast
  moreover have "Now ?c = 2000000000" by (simp add: Now_def Add_epoch0 New_def Let_def)
  ultimately show ?thesis using run1 run2 by simp
qed

text \<open>
  C7, counterexample to "no further update ever occurs": the same stopped clock, whose
  \<^verbatim>\<open>Now()\<close> is 2 s after the virtual epoch, is reset at 7 s; the published duration
  becomes 0 and \<^verbatim>\<open>Now()\<close> returns the virtual epoch, a different instant.
\<close>

theorem frozen_after_loop_returned_counterexample:
  "exec impl_amd64
     [Ticker, LoopStep 2000000000, LoopStep 2000000000, LoopStep 2000000000,
      LoopStep 2000000000, CallStop, DoneCase]
     (New 0 (Fin 1)) =
   Inr \<lparr>clock = (clock (New 0 (Fin 1)))\<lparr>currentDuration := 2000000000,
                                            done_chan := Closed, once := True\<rparr>,
        loop = (loop (New 0 (Fin 1)))\<lparr>pc := Returned\<rparr>, ctx = None, resets = []\<rparr> \<and>
   Now ((clock (New 0 (Fin 1)))\<lparr>currentDuration := 2000000000,
                                 done_chan := Closed, once := True\<rparr>) = 2000000000 \<and>
   exec impl_amd64
     [CallReset, ResetStep 0 7000000000, ResetStep 0 7000000000, ResetStep 0 7000000000,
      ResetStep 0 7000000000]
     \<lparr>clock = (clock (New 0 (Fin 1)))\<lparr>currentDuration := 2000000000,
                                            done_chan := Closed, once := True\<rparr>,
        loop = (loop (New 0 (Fin 1)))\<lparr>pc := Returned\<rparr>, ctx = None, resets = []\<rparr> =
   Inr \<lparr>clock = (clock (New 0 (Fin 1)))\<lparr>startRealTime := 7000000000, currentDuration := 0,
                                            done_chan := Closed, once := True\<rparr>,
        loop = (loop (New 0 (Fin 1)))\<lparr>pc := Returned\<rparr>, ctx = None,
        resets = [RstReturned]\<rparr> \<and>
   Now ((clock (New 0 (Fin 1)))\<lparr>startRealTime := 7000000000, currentDuration := 0,
                                 done_chan := Closed, once := True\<rparr>) = 0"
  by (simp add: run_simps Since_2s accelerated_2s Now_def Add_epoch0 Add_zero)

subsection \<open>C8: Reset after the loop has returned\<close>

text \<open>
  C8. When the goroutine has returned and the mutex is free, a call of \<^verbatim>\<open>Reset\<close> runs
  to its end, publishes 0, and \<^verbatim>\<open>Now()\<close> is the virtual epoch; after that, on every
  schedule, the published duration stays 0 and \<^verbatim>\<open>Now()\<close> stays the virtual epoch.
\<close>

theorem Reset_after_exit_pins_epoch:
  assumes "pc (loop s) = Returned" and "\<not> mu (clock s)"
  shows "\<exists>s1. exec impl [CallReset, ResetStep (length (resets s)) t1,
                          ResetStep (length (resets s)) t2, ResetStep (length (resets s)) t3,
                          ResetStep (length (resets s)) t4] s = Inr s1 \<and>
      Reset t2 (clock s) = Inr (clock s1) \<and>
      currentDuration (clock s1) = 0 \<and>
      Now (clock s1) = startTime (clock s) \<and>
      (\<forall>evs s2. exec impl evs s1 = Inr s2 \<longrightarrow>
         pc (loop s2) = Returned \<and> currentDuration (clock s2) = 0 \<and>
         Now (clock s2) = startTime (clock s))"
proof -
  define s1 where "s1 = s\<lparr>clock := (clock s)\<lparr>startRealTime := t2, currentDuration := 0\<rparr>,
                resets := resets s @ [RstReturned]\<rparr>"
  have run: "exec impl [CallReset, ResetStep (length (resets s)) t1,
                          ResetStep (length (resets s)) t2, ResetStep (length (resets s)) t3,
                          ResetStep (length (resets s)) t4] s = Inr s1"
    unfolding s1_def using assms(2) by (rule Reset_call_steps)
  have r: "Reset t2 (clock s) = Inr (clock s1)"
    using assms(2) by (simp add: Reset_free s1_def)
  have ret: "pc (loop s1) = Returned" using assms(1) by (simp add: s1_def)
  have z: "currentDuration (clock s1) = 0" by (simp add: s1_def)
  have st: "startTime (clock s1) = startTime (clock s)" by (simp add: s1_def)
  have later: "pc (loop s2) = Returned \<and> currentDuration (clock s2) = 0 \<and>
         Now (clock s2) = startTime (clock s)" if "exec impl evs s1 = Inr s2" for evs s2
  proof -
    from exec_Returned[OF ret that] z have "pc (loop s2) = Returned" "currentDuration (clock s2) = 0"
      by auto
    moreover from exec_frame[OF that] st have "startTime (clock s2) = startTime (clock s)" by simp
    ultimately show ?thesis by (simp add: Now_zero)
  qed
  have "Now (clock s1) = startTime (clock s)" using z st by (simp add: Now_zero)
  with run r z later show ?thesis by blast
qed

text \<open>
  C8, witness: a clock of multiplier 1 ticks at 2 s, is stopped and its loop returns;
  it is then reset at 7 s, and a later \<^verbatim>\<open>Stop\<close> and half of a second \<^verbatim>\<open>Reset\<close> at 9 s
  leave \<^verbatim>\<open>Now()\<close> at the epoch.
\<close>

theorem Reset_after_exit_pins_epoch_witness:
  "exec impl_amd64
     [Ticker, LoopStep 2000000000, LoopStep 2000000000, LoopStep 2000000000,
      LoopStep 2000000000, CallStop, DoneCase]
     (New 0 (Fin 1)) =
   Inr \<lparr>clock = (clock (New 0 (Fin 1)))\<lparr>currentDuration := 2000000000,
                                            done_chan := Closed, once := True\<rparr>,
        loop = (loop (New 0 (Fin 1)))\<lparr>pc := Returned\<rparr>, ctx = None, resets = []\<rparr> \<and>
   exec impl_amd64 [CallReset, ResetStep 0 7000000000, ResetStep 0 7000000000,
                    ResetStep 0 7000000000, ResetStep 0 7000000000, CallStop, CallReset,
                    ResetStep 1 9000000000, ResetStep 1 9000000000]
     \<lparr>clock = (clock (New 0 (Fin 1)))\<lparr>currentDuration := 2000000000,
                                            done_chan := Closed, once := True\<rparr>,
        loop = (loop (New 0 (Fin 1)))\<lparr>pc := Returned\<rparr>, ctx = None, resets = []\<rparr> =
   Inr \<lparr>clock = (clock (New 0 (Fin 1)))\<lparr>startRealTime := 9000000000, currentDuration := 0,
                                            done_chan := Closed, mu := True, once := True\<rparr>,
        loop = (loop (New 0 (Fin 1)))\<lparr>pc := Returned\<rparr>, ctx = None,
        resets = [RstReturned, RstStore]\<rparr> \<and>
   Now ((clock (New 0 (Fin 1)))\<lparr>startRealTime := 9000000000, currentDuration := 0,
                                 done_chan := Closed, mu := True, once := True\<rparr>) =
     startTime (clock (New 0 (Fin 1)))"
proof -
  let ?s = "\<lparr>clock = (clock (New 0 (Fin 1)))\<lparr>currentDuration := 2000000000,
                                            done_chan := Closed, once := True\<rparr>,
        loop = (loop (New 0 (Fin 1)))\<lparr>pc := Returned\<rparr>, ctx = None, resets = []\<rparr>"
  let ?s2 = "\<lparr>clock = (clock (New 0 (Fin 1)))\<lparr>startRealTime := 9000000000, currentDuration := 0,
                                            done_chan := Closed, mu := True, once := True\<rparr>,
        loop = (loop (New 0 (Fin 1)))\<lparr>pc := Returned\<rparr>, ctx = None,
        resets = [RstReturned, RstStore]\<rparr>"
  have ret: "pc (loop ?s) = Returned" by simp
  have free: "\<not> mu (clock ?s)" by (simp add: New_def Let_def)
  from Reset_after_exit_pins_epoch[OF ret free, of impl_amd64 7000000000 7000000000 7000000000 7000000000]
  obtain s1 where s1:
    "exec impl_amd64 [CallReset, ResetStep 0 7000000000, ResetStep 0 7000000000,
                    ResetStep 0 7000000000, ResetStep 0 7000000000] ?s = Inr s1"
    "\<And>evs s2. exec impl_amd64 evs s1 = Inr s2 \<Longrightarrow> Now (clock s2) = startTime (clock ?s)"
    by auto
  have whole: "exec impl_amd64 [CallReset, ResetStep 0 7000000000, ResetStep 0 7000000000,
                    ResetStep 0 7000000000, ResetStep 0 7000000000, CallStop, CallReset,
                    ResetStep 1 9000000000, ResetStep 1 9000000000] ?s = Inr ?s2"
    by (simp add: run_simps)
  have "exec impl_amd64 [CallStop, CallReset, ResetStep 1 9000000000, ResetStep 1 9000000000] s1
      = Inr ?s2"
    using s1(1) whole by (simp add: run_simps)
  from s1(2)[OF this] have "Now (clock ?s2) = startTime (clock ?s)" .
  moreover have "exec impl_amd64
     [Ticker, LoopStep 2000000000, LoopStep 2000000000, LoopStep 2000000000,
      LoopStep 2000000000, CallStop, DoneCase] (New 0 (Fin 1)) = Inr ?s"
    by (simp add: run_simps Since_2s accelerated_2s)
  ultimately show ?thesis using whole by simp
qed

subsection \<open>C9: cancelling the context\<close>



subsection \<open>C10: the two epochs of a fresh clock\<close>

text \<open>
  C10. \<^verbatim>\<open>New\<close> and \<^verbatim>\<open>NewCtx\<close> use the one sampled instant for the virtual and the
  real epoch. \<^verbatim>\<open>NewCustom\<close> and \<^verbatim>\<open>NewCustomCtx\<close> take the virtual epoch from the caller
  and sample the real epoch themselves: the two are equal exactly when the caller
  passed the very instant that is sampled.
\<close>

theorem epochs_of_constructors:
  "startTime (clock (New now m)) = now \<and> startRealTime (clock (New now m)) = now \<and>
   startTime (clock (NewCtx c now m)) = now \<and> startRealTime (clock (NewCtx c now m)) = now \<and>
   startTime (clock (NewCustom now st m d)) = st \<and>
   startRealTime (clock (NewCustom now st m d)) = now \<and>
   startTime (clock (NewCustomCtx c now st m d)) = st \<and>
   startRealTime (clock (NewCustomCtx c now st m d)) = now \<and>
   (startTime (clock (NewCustom now st m d)) = startRealTime (clock (NewCustom now st m d)))
     = (st = now) \<and>
   (startTime (clock (NewCustomCtx c now st m d)) =
      startRealTime (clock (NewCustomCtx c now st m d))) = (st = now)"
  by (simp add: New_def NewCustom_def NewCtx_def NewCustomCtx_def Let_def)

end
